theory Spec2Isabelle
  imports Complex_Main "HOL-Library.AList" "HOL-Library.Signed_Division"
begin

section \<open>Common ground: panics, time, Go arithmetic\<close>

text \<open>
  The relay is written in Go. A run-time panic ends the call that raised it, so every
  operation that can panic returns \<open>error + 'a\<close> with \<open>Inl\<close> for the panic.
  Go's \<open>int\<close> is 64 bits wide; the quantities below are lengths, indices and counters
  that stay far from the bounds, so they are modelled as \<open>int\<close> and no wrap-around
  is written out. Instants (\<open>time.Time\<close>) and durations are integers (nanoseconds), and
  each reading of \<open>time.Now()\<close> is a parameter of the operation that takes it.
\<close>

datatype error =
    PanicMakeSliceLen        \<comment> \<open>makeslice: len out of range\<close>
  | PanicMakeChanSize        \<comment> \<open>makechan: size out of range\<close>
  | PanicIndexOutOfRange     \<comment> \<open>index out of range\<close>
  | PanicSliceBounds         \<comment> \<open>slice bounds out of range\<close>
  | PanicDivideByZero        \<comment> \<open>integer divide by zero\<close>
  | PanicCloseOfClosedChannel
  | PanicSendOnClosedChannel
  | PanicNilDereference

type_synonym time = int

definition ebind :: "error + 'a \<Rightarrow> ('a \<Rightarrow> error + 'b) \<Rightarrow> error + 'b" where
  "ebind m f = (case m of Inl e \<Rightarrow> Inl e | Inr x \<Rightarrow> f x)"

text \<open>Go's \<open>a % b\<close>: the remainder of the division truncated towards zero.\<close>

definition go_rem :: "int \<Rightarrow> int \<Rightarrow> error + int" where
  "go_rem a b = (if b = 0 then Inl PanicDivideByZero else Inr (a smod b))"

text \<open>Go's \<open>xs[i]\<close> on a slice.\<close>

definition index_at :: "'a list \<Rightarrow> int \<Rightarrow> error + 'a" where
  "index_at xs i =
     (if 0 \<le> i \<and> i < int (length xs) then Inr (xs ! nat i) else Inl PanicIndexOutOfRange)"

text \<open>A \<open>for i := 0; i < n; i++ { result[i] = body(i) }\<close> loop that fills a slice.\<close>

fun fill :: "(int \<Rightarrow> error + 'a) \<Rightarrow> int list \<Rightarrow> error + 'a list" where
  "fill body [] = Inr []"
| "fill body (i # is) =
     (case body i of
        Inl e \<Rightarrow> Inl e
      | Inr x \<Rightarrow> (case fill body is of Inl e \<Rightarrow> Inl e | Inr xs \<Rightarrow> Inr (x # xs)))"

section \<open>Package types: the market-data records\<close>

text \<open>
  Prices and sizes are \<open>float64\<close> in the source. The cache never computes with them, so
  their type is the parameter \<open>'f\<close>; its \<open>0\<close> is the zero value of a fresh slice
  element. \<open>Trade\<close> shares field names with \<open>OrderbookSnapshot\<close> and \<open>PriceLevel\<close>;
  its fields carry the prefix \<open>Trade\<close> where they would clash.
\<close>

record 'f PriceLevel =
  Price :: 'f
  Size :: 'f

record 'f OrderbookSnapshot =
  Symbol :: string
  Timestamp :: time
  Sequence :: int
  Asks :: "'f PriceLevel list"
  Bids :: "'f PriceLevel list"

record 'f Trade =
  TradeSymbol :: string
  TradeID :: string
  TradePrice :: 'f
  TradeSize :: 'f
  Side :: string
  TradeTimestamp :: time

definition zeroTrade :: "('f::zero) Trade" where
  "zeroTrade = \<lparr>TradeSymbol = [], TradeID = [], TradePrice = 0, TradeSize = 0,
                Side = [], TradeTimestamp = 0\<rparr>"

section \<open>Package cache\<close>

subsection \<open>TradeRingBuffer\<close>

record 'f TradeRingBuffer =
  trades :: "'f Trade list"
  head :: int
  count :: int

definition NewTradeRingBuffer :: "int \<Rightarrow> error + ('f::zero) TradeRingBuffer" where
  "NewTradeRingBuffer sz =
     (if sz < 0 then Inl PanicMakeSliceLen
      else Inr \<lparr>trades = replicate (nat sz) zeroTrade, head = 0, count = 0\<rparr>)"

definition Add :: "'f TradeRingBuffer \<Rightarrow> 'f Trade \<Rightarrow> error + 'f TradeRingBuffer" where
  "Add rb trade =
     (let n = int (length (trades rb)) in
      if head rb < 0 \<or> n \<le> head rb then Inl PanicIndexOutOfRange
      else ebind (go_rem (head rb + 1) n) (\<lambda>h.
        Inr \<lparr>trades = (trades rb)[nat (head rb) := trade],
             head = h,
             count = (if count rb < n then count rb + 1 else count rb)\<rparr>))"

definition GetAll :: "'f TradeRingBuffer \<Rightarrow> error + 'f Trade list" where
  "GetAll rb =
     (let n = int (length (trades rb)) in
      if count rb < 0 then Inl PanicMakeSliceLen
      else if count rb < n then Inr (take (nat (count rb)) (trades rb))
      else fill (\<lambda>i. ebind (go_rem (head rb + i) n) (index_at (trades rb)))
                (map int [0..<nat (count rb)]))"

definition GetRecent :: "'f TradeRingBuffer \<Rightarrow> int \<Rightarrow> error + 'f Trade list" where
  "GetRecent rb n0 =
     (let n = (if n0 > count rb then count rb else n0);
          len = int (length (trades rb)) in
      if n < 0 then Inl PanicMakeSliceLen
      else fill (\<lambda>i. ebind (go_rem (head rb - n + i + len) len) (index_at (trades rb)))
                (map int [0..<nat n]))"

subsection \<open>Layer\<close>

text \<open>
  The two maps of the layer hold pointers; the layer is their only owner once a value is
  stored, so the model keeps the values themselves. \<open>UpdateOrderbook\<close> trims the
  caller's snapshot in place and stores that pointer: the model returns the layer with the
  trimmed snapshot. The lock and the byte-buffer pool carry no data of the model. The
  field \<open>trades\<close> of the layer is \<open>trades_of\<close> here, since the ring has a field
  \<open>trades\<close> too. \<open>GetSymbols\<close> and \<open>GetStats\<close> only read the maps.
\<close>

record 'f Layer =
  orderbooks :: "string \<rightharpoonup> 'f OrderbookSnapshot"
  trades_of :: "string \<rightharpoonup> 'f TradeRingBuffer"
  maxDepth :: int
  tradeSize :: int

definition NewLayer :: "int \<Rightarrow> int \<Rightarrow> 'f Layer" where
  "NewLayer md ts = \<lparr>orderbooks = Map.empty, trades_of = Map.empty, maxDepth = md, tradeSize = ts\<rparr>"

text \<open>Go's \<open>xs[:n]\<close>; the caller has checked \<open>len(xs) > n\<close>, so only \<open>n < 0\<close> panics.\<close>

definition slice_to :: "'a list \<Rightarrow> int \<Rightarrow> error + 'a list" where
  "slice_to xs n =
     (if n < 0 \<or> int (length xs) < n then Inl PanicSliceBounds else Inr (take (nat n) xs))"

definition trim :: "'a list \<Rightarrow> int \<Rightarrow> error + 'a list" where
  "trim xs md = (if int (length xs) > md then slice_to xs md else Inr xs)"

definition UpdateOrderbook :: "'f Layer \<Rightarrow> 'f OrderbookSnapshot \<Rightarrow> error + 'f Layer" where
  "UpdateOrderbook l snapshot =
     ebind (trim (Asks snapshot) (maxDepth l)) (\<lambda>asks.
     ebind (trim (Bids snapshot) (maxDepth l)) (\<lambda>bids.
       Inr (l\<lparr>orderbooks := (orderbooks l)(Symbol snapshot \<mapsto> snapshot\<lparr>Asks := asks, Bids := bids\<rparr>)\<rparr>)))"

definition copyOrderbook :: "'f OrderbookSnapshot \<Rightarrow> 'f OrderbookSnapshot" where
  "copyOrderbook src =
     \<lparr>Symbol = Symbol src, Timestamp = Timestamp src, Sequence = Sequence src,
      Asks = Asks src, Bids = Bids src\<rparr>"

definition GetOrderbook :: "'f Layer \<Rightarrow> string \<Rightarrow> 'f OrderbookSnapshot option" where
  "GetOrderbook l symbol =
     (case orderbooks l symbol of None \<Rightarrow> None | Some snapshot \<Rightarrow> Some (copyOrderbook snapshot))"

definition AddTrade :: "('f::zero) Layer \<Rightarrow> 'f Trade \<Rightarrow> error + 'f Layer" where
  "AddTrade l trade =
     ebind (case trades_of l (TradeSymbol trade) of
              Some rb \<Rightarrow> Inr rb
            | None \<Rightarrow> NewTradeRingBuffer (tradeSize l)) (\<lambda>rb.
     ebind (Add rb trade) (\<lambda>rb'.
       Inr (l\<lparr>trades_of := (trades_of l)(TradeSymbol trade \<mapsto> rb')\<rparr>)))"

definition GetRecentTrades :: "'f Layer \<Rightarrow> string \<Rightarrow> int \<Rightarrow> error + 'f Trade list" where
  "GetRecentTrades l symbol n =
     (case trades_of l symbol of None \<Rightarrow> Inr [] | Some rb \<Rightarrow> GetRecent rb n)"

text \<open>
  \<open>Cleanup\<close> deletes, for every symbol whose snapshot is older than the threshold, the
  snapshot and the trade ring; \<open>now\<close> is its one reading of the clock.
\<close>

definition stale :: "'f Layer \<Rightarrow> time \<Rightarrow> int \<Rightarrow> string \<Rightarrow> bool" where
  "stale l now staleThreshold symbol =
     (case orderbooks l symbol of
        None \<Rightarrow> False
      | Some snapshot \<Rightarrow> now - Timestamp snapshot > staleThreshold)"

definition Cleanup :: "'f Layer \<Rightarrow> time \<Rightarrow> int \<Rightarrow> 'f Layer" where
  "Cleanup l now staleThreshold =
     l\<lparr>orderbooks := (\<lambda>symbol. if stale l now staleThreshold symbol then None
                                else orderbooks l symbol),
       trades_of := (\<lambda>symbol. if stale l now staleThreshold symbol then None
                               else trades_of l symbol)\<rparr>"

text \<open>
  The REST handler \<open>handleGetTrades\<close> reads the query parameter \<open>count\<close> and caps it at
  1000 before it calls \<open>GetRecentTrades\<close>; there is no other check on it.
\<close>

definition handleGetTrades_count :: "int \<Rightarrow> int" where
  "handleGetTrades_count count0 = (if count0 > 1000 then 1000 else count0)"

subsection \<open>Sequences of calls and what a ring holds\<close>

text \<open>
  \<open>Add_all\<close> and \<open>AddTrade_all\<close> are the successive calls \<open>Add(t1); Add(t2); \<dots>\<close>
  on one ring and \<open>AddTrade(t1); AddTrade(t2); \<dots>\<close> on one layer. \<open>last_n m xs\<close> is
  the list of the last \<open>m\<close> elements of \<open>xs\<close>, in the order of \<open>xs\<close>.
  \<open>ring_holds cap rb ts\<close> is the invariant that links a ring to the list \<open>ts\<close> of all trades
  added to it so far: the trade added as number \<open>k\<close> sits in slot \<open>k mod cap\<close> as long
  as it is among the last \<open>cap\<close>.
\<close>

definition last_n :: "nat \<Rightarrow> 'a list \<Rightarrow> 'a list" where
  "last_n m xs = drop (length xs - m) xs"

fun AddTrade_all :: "('f::zero) Layer \<Rightarrow> 'f Trade list \<Rightarrow> error + 'f Layer" where
  "AddTrade_all l [] = Inr l"
| "AddTrade_all l (t # ts) = ebind (AddTrade l t) (\<lambda>l'. AddTrade_all l' ts)"

definition trades_for :: "string \<Rightarrow> 'f Trade list \<Rightarrow> 'f Trade list" where
  "trades_for symbol ts = filter (\<lambda>t. TradeSymbol t = symbol) ts"

definition ring_holds :: "nat \<Rightarrow> 'f TradeRingBuffer \<Rightarrow> 'f Trade list \<Rightarrow> bool" where
  "ring_holds cap rb ts \<longleftrightarrow>
     length (trades rb) = cap \<and> head rb = int (length ts mod cap) \<and>
     count rb = int (min (length ts) cap) \<and>
     (\<forall>k < length ts. length ts \<le> k + cap \<longrightarrow> trades rb ! (k mod cap) = ts ! k)"

definition layer_holds :: "nat \<Rightarrow> 'f Layer \<Rightarrow> 'f Trade list \<Rightarrow> bool" where
  "layer_holds cap l ts \<longleftrightarrow>
     tradeSize l = int cap \<and>
     (\<forall>symbol. case trades_of l symbol of
                  None \<Rightarrow> trades_for symbol ts = []
                | Some rb \<Rightarrow> ring_holds cap rb (trades_for symbol ts))"

fun Add_all :: "'f TradeRingBuffer \<Rightarrow> 'f Trade list \<Rightarrow> error + 'f TradeRingBuffer" where
  "Add_all rb [] = Inr rb"
| "Add_all rb (t # ts) = ebind (Add rb t) (\<lambda>rb'. Add_all rb' ts)"

subsection \<open>The depth bound, successive updates, and concrete inputs\<close>

text \<open>
  \<open>depth_ok\<close> is the depth bound of the cache as a predicate on the layer.
  \<open>UpdateOrderbook_all\<close> is the successive calls of \<open>UpdateOrderbook\<close> on one layer;
  \<open>visible_sequence\<close> reads the sequence number that \<open>GetOrderbook\<close> shows for a
  symbol. \<open>example_snapshot\<close> and \<open>example_trade\<close> build the concrete inputs on
  which the theorems below are instantiated.
\<close>

definition depth_ok :: "'f Layer \<Rightarrow> bool" where
  "depth_ok l \<longleftrightarrow>
     (\<forall>symbol snapshot. orderbooks l symbol = Some snapshot \<longrightarrow>
        int (length (Asks snapshot)) \<le> maxDepth l \<and> int (length (Bids snapshot)) \<le> maxDepth l)"

fun UpdateOrderbook_all :: "'f Layer \<Rightarrow> 'f OrderbookSnapshot list \<Rightarrow> error + 'f Layer" where
  "UpdateOrderbook_all l [] = Inr l"
| "UpdateOrderbook_all l (s # ss) = ebind (UpdateOrderbook l s) (\<lambda>l'. UpdateOrderbook_all l' ss)"

definition visible_sequence :: "'f Layer \<Rightarrow> string \<Rightarrow> int option" where
  "visible_sequence l symbol = map_option Sequence (GetOrderbook l symbol)"

definition sequence_after :: "'f Layer \<Rightarrow> 'f OrderbookSnapshot list \<Rightarrow> string \<Rightarrow> error + int option" where
  "sequence_after l ss symbol =
     ebind (UpdateOrderbook_all l ss) (\<lambda>l'. Inr (visible_sequence l' symbol))"

definition example_snapshot :: "string \<Rightarrow> int \<Rightarrow> int list \<Rightarrow> int list \<Rightarrow> int OrderbookSnapshot" where
  "example_snapshot symbol sq asks bids =
     \<lparr>Symbol = symbol, Timestamp = 0, Sequence = sq,
      Asks = map (\<lambda>p. \<lparr>Price = p, Size = 1\<rparr>) asks,
      Bids = map (\<lambda>p. \<lparr>Price = p, Size = 1\<rparr>) bids\<rparr>"

definition example_trade :: "string \<Rightarrow> string \<Rightarrow> int Trade" where
  "example_trade symbol tid =
     \<lparr>TradeSymbol = symbol, TradeID = tid, TradePrice = 100, TradeSize = 1,
      Side = ''buy'', TradeTimestamp = 0\<rparr>"

section \<open>Package ratelimit\<close>

text \<open>
  The request-rate bucket of a key is a \<open>rate.Limiter\<close> of the library
  \<open>golang.org/x/time/rate\<close>. The model keeps its two settings; whether the bucket admits
  a request is the library's answer and enters \<open>Allow\<close> as the parameter \<open>admit\<close>.
  \<open>AllowN\<close> and \<open>Wait\<close> reach the limiter of a key through the same call of
  \<open>getOrCreate\<close> as \<open>Allow\<close> and differ in the question they put to the bucket.
  \<open>Streams\<close> is a pointer that may be nil, hence an option. \<open>now\<close> stands for the
  readings of the clock during one call.
\<close>

record StreamLimiter =
  maxStreams :: int
  activeStreams :: int

record RateLimiter =
  limit :: int
  burst :: int

record ClientLimiter =
  RPS :: RateLimiter
  Streams :: "StreamLimiter option"
  LastAccess :: time

record Limiter =
  limiters :: "string \<rightharpoonup> ClientLimiter"
  defaultRPS :: int
  defaultBurst :: int
  cleanupInterval :: int

record Config =
  DefaultRPS :: int
  DefaultMaxStreams :: int
  BurstMultiplier :: rat
  CleanupInterval :: int

definition NewStreamLimiter :: "int \<Rightarrow> StreamLimiter" where
  "NewStreamLimiter m = \<lparr>maxStreams = m, activeStreams = 0\<rparr>"

definition Acquire :: "StreamLimiter \<Rightarrow> bool \<times> StreamLimiter" where
  "Acquire sl =
     (if activeStreams sl \<ge> maxStreams sl then (False, sl)
      else (True, sl\<lparr>activeStreams := activeStreams sl + 1\<rparr>))"

definition Release :: "StreamLimiter \<Rightarrow> StreamLimiter" where
  "Release sl =
     (if activeStreams sl > 0 then sl\<lparr>activeStreams := activeStreams sl - 1\<rparr> else sl)"

definition ActiveCount :: "StreamLimiter \<Rightarrow> int" where
  "ActiveCount sl = activeStreams sl"

text \<open>
  \<open>int(x)\<close> on a float truncates towards zero. The burst multiplier is a \<open>float64\<close>;
  it is a rational number here, which is exact for the products that fit a float.
\<close>

definition go_trunc :: "rat \<Rightarrow> int" where
  "go_trunc x = (if 0 \<le> x then \<lfloor>x\<rfloor> else \<lceil>x\<rceil>)"

definition NewLimiter :: "Config \<Rightarrow> Limiter" where
  "NewLimiter cfg =
     (let bm = (if BurstMultiplier cfg < 1 then 2 else BurstMultiplier cfg);
          ci = (if CleanupInterval cfg = 0 then 5 * 60 * 1000000000 else CleanupInterval cfg)
      in \<lparr>limiters = Map.empty,
          defaultRPS = DefaultRPS cfg,
          defaultBurst = go_trunc (of_int (DefaultRPS cfg) * bm),
          cleanupInterval = ci\<rparr>)"

definition getOrCreate :: "Limiter \<Rightarrow> time \<Rightarrow> string \<Rightarrow> int \<Rightarrow> int \<Rightarrow> ClientLimiter \<times> Limiter" where
  "getOrCreate l now key rps mx =
     (case limiters l key of
        Some limiter \<Rightarrow> (limiter, l)
      | None \<Rightarrow>
          (let limiter = \<lparr>RPS = \<lparr>limit = rps, burst = defaultBurst l\<rparr>,
                          Streams = Some (NewStreamLimiter mx),
                          LastAccess = now\<rparr>
           in (limiter, l\<lparr>limiters := (limiters l)(key \<mapsto> limiter)\<rparr>)))"

definition Allow :: "Limiter \<Rightarrow> time \<Rightarrow> string \<Rightarrow> bool \<Rightarrow> bool \<times> Limiter" where
  "Allow l now key admit =
     (case getOrCreate l now key (defaultRPS l) (defaultRPS l) of
        (limiter, l') \<Rightarrow>
          (admit, l'\<lparr>limiters := (limiters l')(key \<mapsto> limiter\<lparr>LastAccess := now\<rparr>)\<rparr>))"

definition AcquireStream :: "Limiter \<Rightarrow> time \<Rightarrow> string \<Rightarrow> int \<Rightarrow> error + bool \<times> Limiter" where
  "AcquireStream l now key mx =
     (case getOrCreate l now key (defaultRPS l) mx of
        (limiter, l') \<Rightarrow>
          (case Streams limiter of
             None \<Rightarrow> Inl PanicNilDereference
           | Some sl \<Rightarrow>
               (case Acquire sl of
                  (ok, sl') \<Rightarrow>
                    Inr (ok, l'\<lparr>limiters := (limiters l')(key \<mapsto>
                               limiter\<lparr>LastAccess := now, Streams := Some sl'\<rparr>)\<rparr>))))"

definition ReleaseStream :: "Limiter \<Rightarrow> string \<Rightarrow> Limiter" where
  "ReleaseStream l key =
     (case limiters l key of
        None \<Rightarrow> l
      | Some limiter \<Rightarrow>
          (case Streams limiter of
             None \<Rightarrow> l
           | Some sl \<Rightarrow>
               l\<lparr>limiters := (limiters l)(key \<mapsto> limiter\<lparr>Streams := Some (Release sl)\<rparr>)\<rparr>))"

definition SetLimit :: "Limiter \<Rightarrow> time \<Rightarrow> string \<Rightarrow> int \<Rightarrow> int \<Rightarrow> Limiter" where
  "SetLimit l now key rps mx =
     (case limiters l key of
        Some limiter \<Rightarrow>
          l\<lparr>limiters := (limiters l)(key \<mapsto>
               limiter\<lparr>RPS := \<lparr>limit = rps, burst = rps * 2\<rparr>,
                       Streams := Some (NewStreamLimiter mx)\<rparr>)\<rparr>
      | None \<Rightarrow>
          l\<lparr>limiters := (limiters l)(key \<mapsto>
               \<lparr>RPS = \<lparr>limit = rps, burst = rps * 2\<rparr>,
                Streams = Some (NewStreamLimiter mx),
                LastAccess = now\<rparr>)\<rparr>)"

text \<open>
  \<open>AcquireStreams\<close> is \<open>n\<close> successive calls of \<open>AcquireStream\<close> with the same arguments,
  with nothing released in between; it returns the answers in order. \<open>streams_of\<close> reads
  the semaphore of a key.
\<close>

fun AcquireStreams :: "Limiter \<Rightarrow> time \<Rightarrow> string \<Rightarrow> int \<Rightarrow> nat \<Rightarrow> error + bool list \<times> Limiter" where
  "AcquireStreams l now key mx 0 = Inr ([], l)"
| "AcquireStreams l now key mx (Suc n) =
     (case AcquireStream l now key mx of
        Inl e \<Rightarrow> Inl e
      | Inr (ok, l') \<Rightarrow>
          (case AcquireStreams l' now key mx n of
             Inl e \<Rightarrow> Inl e
           | Inr (oks, l'') \<Rightarrow> Inr (ok # oks, l'')))"

definition streams_of :: "Limiter \<Rightarrow> string \<Rightarrow> StreamLimiter option" where
  "streams_of l key = (case limiters l key of None \<Rightarrow> None | Some limiter \<Rightarrow> Streams limiter)"

definition answers :: "error + bool list \<times> Limiter \<Rightarrow> error + bool list" where
  "answers r = map_sum id fst r"

definition example_client :: ClientLimiter where
  "example_client = \<lparr>RPS = \<lparr>limit = 100, burst = 200\<rparr>,
                     Streams = Some \<lparr>maxStreams = 2, activeStreams = 2\<rparr>,
                     LastAccess = 0\<rparr>"

definition example_limiter :: Limiter where
  "example_limiter = \<lparr>limiters = [''k'' \<mapsto> example_client], defaultRPS = 100,
                      defaultBurst = 200, cleanupInterval = 300000000000\<rparr>"

definition example_config :: Config where
  "example_config = \<lparr>DefaultRPS = 100, DefaultMaxStreams = 10, BurstMultiplier = 2,
                     CleanupInterval = 0\<rparr>"

section \<open>Packages models and auth\<close>

text \<open>
  The statuses are Go strings read from the database. \<open>ExpiresAt\<close> is a pointer that is
  nil when the key has no expiry. The fields \<open>TenantID\<close> and \<open>APIKeyID\<close> of
  \<open>AuthContext\<close> carry the prefix \<open>Auth\<close>: the subscriber of the hub has fields of the
  same names.
\<close>

type_synonym TenantStatus = string
type_synonym APIKeyStatus = string

definition TenantStatusActive :: TenantStatus where "TenantStatusActive = ''active''"
definition TenantStatusSuspended :: TenantStatus where "TenantStatusSuspended = ''suspended''"
definition TenantStatusDeleted :: TenantStatus where "TenantStatusDeleted = ''deleted''"
definition APIKeyStatusActive :: APIKeyStatus where "APIKeyStatusActive = ''active''"
definition APIKeyStatusRevoked :: APIKeyStatus where "APIKeyStatusRevoked = ''revoked''"
definition APIKeyStatusExpired :: APIKeyStatus where "APIKeyStatusExpired = ''expired''"

record AuthContext =
  AuthTenantID :: int
  TenantName :: string
  TenantStatus :: TenantStatus
  AuthAPIKeyID :: int
  APIKeyStatus :: APIKeyStatus
  PlanID :: int
  PlanName :: string
  MaxConcurrentStreams :: int
  MaxRPS :: int
  MaxSymbols :: int
  MaxDailyRequests :: int
  Permissions :: "string list"
  ExpiresAt :: "time option"
  CachedAt :: time

text \<open>\<open>t.Before(now)\<close> on an optional instant: false when the pointer is nil.\<close>

definition expired_before :: "time option \<Rightarrow> time \<Rightarrow> bool" where
  "expired_before e now = (case e of None \<Rightarrow> False | Some t \<Rightarrow> t < now)"

definition IsValid :: "AuthContext \<Rightarrow> time \<Rightarrow> bool" where
  "IsValid ac now =
     (if TenantStatus ac \<noteq> TenantStatusActive then False
      else if APIKeyStatus ac \<noteq> APIKeyStatusActive then False
      else if expired_before (ExpiresAt ac) now then False
      else True)"

datatype auth_error =
    ErrMissingAPIKey
  | ErrInvalidAPIKey
  | ErrExpiredAPIKey
  | ErrRevokedAPIKey
  | ErrSuspendedTenant
  | ErrQueryFailed      \<comment> \<open>"failed to query auth context": any database error but no rows\<close>

text \<open>
  The repository is the database behind \<open>queryAuthContext\<close>: for a key hash it answers
  with no row, with another error, or with the joined row. It is a parameter of
  \<open>Authenticate\<close>, and so is the hash function (SHA-256 in hexadecimal). The Redis
  lookup of the source is a stub that always misses, and the write to Redis is an empty
  stub. The update of \<open>last_used_at\<close> runs in a goroutine of its own against the database
  and is no part of the result.
\<close>

datatype query_result = ErrNoRows | ErrOther | Row AuthContext

record Service =
  redis :: bool
  cache :: "string \<rightharpoonup> AuthContext"
  cacheTTL :: int

text \<open>
  \<open>Authenticate\<close> returns early from several places and falls through otherwise. The
  model follows it from the bottom up: \<open>Authenticate_classify\<close> is the chain of tests on
  a row that is not valid, \<open>Authenticate_database\<close> the part from the database query
  on, \<open>Authenticate_redis\<close> the Redis lookup before it, and \<open>Authenticate\<close> the whole.
  \<open>Authenticate\<close> reads the clock up to five times; the readings, in the order of the
  source, are the fields of \<open>clock\<close>.
\<close>

record clock =
  now_since :: time        \<comment> \<open>\<open>time.Since(authCtx.CachedAt)\<close> in \<open>getFromCache\<close>\<close>
  now_cached :: time       \<comment> \<open>\<open>IsValid\<close> of the cached record\<close>
  now_valid :: time        \<comment> \<open>\<open>IsValid\<close> of the record from the database\<close>
  now_expiry :: time       \<comment> \<open>\<open>ExpiresAt.Before(time.Now())\<close> in the classification\<close>
  now_stamp :: time        \<comment> \<open>\<open>CachedAt = time.Now()\<close>\<close>

definition getFromCache :: "Service \<Rightarrow> time \<Rightarrow> string \<Rightarrow> AuthContext option" where
  "getFromCache s now keyHash =
     (case cache s keyHash of
        None \<Rightarrow> None
      | Some authCtx \<Rightarrow> if now - CachedAt authCtx > cacheTTL s then None else Some authCtx)"

definition putToCache :: "Service \<Rightarrow> string \<Rightarrow> AuthContext \<Rightarrow> Service" where
  "putToCache s keyHash authCtx = s\<lparr>cache := (cache s)(keyHash \<mapsto> authCtx)\<rparr>"

definition removeFromCache :: "Service \<Rightarrow> string \<Rightarrow> Service" where
  "removeFromCache s keyHash = s\<lparr>cache := (cache s)(keyHash := None)\<rparr>"

definition getFromRedis :: "string \<Rightarrow> AuthContext option" where
  "getFromRedis keyHash = None"

definition Authenticate_classify :: "AuthContext \<Rightarrow> time \<Rightarrow> auth_error" where
  "Authenticate_classify authCtx now =
     (if TenantStatus authCtx = TenantStatusSuspended then ErrSuspendedTenant
      else if APIKeyStatus authCtx = APIKeyStatusRevoked then ErrRevokedAPIKey
      else if APIKeyStatus authCtx = APIKeyStatusExpired \<or> expired_before (ExpiresAt authCtx) now
           then ErrExpiredAPIKey
      else ErrInvalidAPIKey)"

definition Authenticate_database ::
  "Service \<Rightarrow> (string \<Rightarrow> query_result) \<Rightarrow> clock \<Rightarrow> string \<Rightarrow> (auth_error + AuthContext) \<times> Service" where
  "Authenticate_database s db clk keyHash =
     (case db keyHash of
        ErrNoRows \<Rightarrow> (Inl ErrInvalidAPIKey, s)
      | ErrOther \<Rightarrow> (Inl ErrQueryFailed, s)
      | Row authCtx \<Rightarrow>
          if \<not> IsValid authCtx (now_valid clk) then (Inl (Authenticate_classify authCtx (now_expiry clk)), s)
          else (let authCtx' = authCtx\<lparr>CachedAt := now_stamp clk\<rparr>
                in (Inr authCtx', putToCache s keyHash authCtx')))"

definition Authenticate_redis ::
  "Service \<Rightarrow> (string \<Rightarrow> query_result) \<Rightarrow> clock \<Rightarrow> string \<Rightarrow> (auth_error + AuthContext) \<times> Service" where
  "Authenticate_redis s db clk keyHash =
     (if redis s then
        (case getFromRedis keyHash of
           Some authCtx \<Rightarrow>
             if IsValid authCtx (now_cached clk) then (Inr authCtx, putToCache s keyHash authCtx)
             else Authenticate_database s db clk keyHash
         | None \<Rightarrow> Authenticate_database s db clk keyHash)
      else Authenticate_database s db clk keyHash)"

definition Authenticate ::
  "Service \<Rightarrow> (string \<Rightarrow> string) \<Rightarrow> (string \<Rightarrow> query_result) \<Rightarrow> clock \<Rightarrow> string
     \<Rightarrow> (auth_error + AuthContext) \<times> Service" where
  "Authenticate s hashAPIKey db clk apiKey =
     (if apiKey = [] then (Inl ErrMissingAPIKey, s)
      else
        (let keyHash = hashAPIKey apiKey in
         case getFromCache s (now_since clk) keyHash of
           Some authCtx \<Rightarrow>
             if IsValid authCtx (now_cached clk) then (Inr authCtx, s)
             else Authenticate_redis (removeFromCache s keyHash) db clk keyHash
         | None \<Rightarrow> Authenticate_redis s db clk keyHash))"

text \<open>
  \<open>cache_usable\<close> says that the in-memory cache answers the call: it holds a record for
  the hash that is within its time to live and valid. \<open>example_row\<close> is a database row
  and \<open>example_clock\<close> a clock whose readings are all the same instant.
\<close>

definition cache_usable :: "Service \<Rightarrow> clock \<Rightarrow> string \<Rightarrow> bool" where
  "cache_usable s clk keyHash =
     (case getFromCache s (now_since clk) keyHash of
        None \<Rightarrow> False
      | Some authCtx \<Rightarrow> IsValid authCtx (now_cached clk))"

definition example_row :: "TenantStatus \<Rightarrow> APIKeyStatus \<Rightarrow> time option \<Rightarrow> AuthContext" where
  "example_row ts ks e =
     \<lparr>AuthTenantID = 1, TenantName = ''acme'', TenantStatus = ts, AuthAPIKeyID = 7,
      APIKeyStatus = ks, PlanID = 1, PlanName = ''free'', MaxConcurrentStreams = 5,
      MaxRPS = 10, MaxSymbols = 10, MaxDailyRequests = 0, Permissions = [],
      ExpiresAt = e, CachedAt = 0\<rparr>"

definition example_clock :: "time \<Rightarrow> clock" where
  "example_clock t = \<lparr>now_since = t, now_cached = t, now_valid = t, now_expiry = t, now_stamp = t\<rparr>"

definition example_hash :: "string \<Rightarrow> string" where
  "example_hash apiKey = (if apiKey = ''secret'' then ''5e88'' else ''0000'')"

definition example_db :: "AuthContext \<Rightarrow> string \<Rightarrow> query_result" where
  "example_db row keyHash = (if keyHash = ''5e88'' then Row row else ErrNoRows)"

definition example_service :: Service where
  "example_service = \<lparr>redis = False, cache = Map.empty, cacheTTL = 300000000000\<rparr>"

section \<open>Package fanout\<close>

text \<open>
  Subscribers are heap objects: the transport holds a pointer to the subscriber it
  created, and every topic the subscriber joins holds the same pointer. The model keeps
  the objects in a store, \<open>objects\<close>, from addresses to subscriber records, next to the
  fields of the hub; \<open>allocated\<close> counts the objects created so far and is the next
  fresh address. A dereference of an address without an object stands for a nil pointer.

  A channel is its queue, its capacity and whether it has been closed. Closing a closed
  channel panics, and so does sending on one. A send inside \<open>select\<close> with a
  \<open>default\<close> branch does not wait: it enqueues when the buffer has room and takes the
  default branch otherwise. No reader is modelled, so nothing leaves a queue.

  The two maps of the hub are association lists, since \<open>Publish\<close> and \<open>CleanupZombies\<close>
  range over them; Go leaves the order of that iteration open, the model takes the order
  of insertion. The payload of an update is the type parameter \<open>'u\<close>. The \<open>emitter\<close>
  of the hub belongs to a library and is left out, with the two methods that only
  forward to it.
\<close>

type_synonym addr = nat

record 'u Chan =
  chan_buf :: "'u list"
  chan_cap :: int
  chan_closed :: bool

definition make_chan :: "int \<Rightarrow> error + 'u Chan" where
  "make_chan n =
     (if n < 0 then Inl PanicMakeChanSize
      else Inr \<lparr>chan_buf = [], chan_cap = n, chan_closed = False\<rparr>)"

definition close_chan :: "'u Chan \<Rightarrow> error + 'u Chan" where
  "close_chan c = (if chan_closed c then Inl PanicCloseOfClosedChannel
                   else Inr (c\<lparr>chan_closed := True\<rparr>))"

text \<open>\<open>select { case c <- v: \<dots> default: \<dots> }\<close>: \<open>None\<close> is the default branch.\<close>

definition try_send :: "'u Chan \<Rightarrow> 'u \<Rightarrow> error + 'u Chan option" where
  "try_send c v =
     (if chan_closed c then Inl PanicSendOnClosedChannel
      else if int (length (chan_buf c)) < chan_cap c
           then Inr (Some (c\<lparr>chan_buf := chan_buf c @ [v]\<rparr>))
      else Inr None)"

record 'u Subscriber =
  ID :: string
  TenantID :: int
  APIKeyID :: int
  SendChan :: "'u Chan"
  ConnectTime :: time
  LastSend :: time
  Dropped :: int
  closed :: bool

record Topic =
  topic_symbol :: string
  subscribers :: "(string \<times> addr) list"
  lastUpdate :: time

record 'u Hub =
  topics :: "(string \<times> Topic) list"
  bufferSize :: int
  slowThreshold :: int
  zombieTimeout :: int
  activeSubscribers :: int
  droppedMessages :: int
  objects :: "addr \<rightharpoonup> 'u Subscriber"
  allocated :: nat

definition NewHub :: "int \<Rightarrow> int \<Rightarrow> int \<Rightarrow> 'u Hub" where
  "NewHub bs st zt =
     \<lparr>topics = [], bufferSize = bs, slowThreshold = st, zombieTimeout = zt,
      activeSubscribers = 0, droppedMessages = 0, objects = Map.empty, allocated = 0\<rparr>"

definition CreateSubscriber ::
  "'u Hub \<Rightarrow> time \<Rightarrow> string \<Rightarrow> int \<Rightarrow> int \<Rightarrow> error + addr \<times> 'u Hub" where
  "CreateSubscriber h now sid tenantID apiKeyID =
     ebind (make_chan (bufferSize h)) (\<lambda>c.
       Inr (allocated h,
            h\<lparr>objects := (objects h)(allocated h \<mapsto>
                 \<lparr>ID = sid, TenantID = tenantID, APIKeyID = apiKeyID, SendChan = c,
                  ConnectTime = now, LastSend = now, Dropped = 0, closed = False\<rparr>),
              allocated := Suc (allocated h)\<rparr>))"

definition Subscribe :: "'u Hub \<Rightarrow> string \<Rightarrow> addr \<Rightarrow> error + 'u Hub" where
  "Subscribe h symbol sub =
     (let topic = (case map_of (topics h) symbol of
                     Some t \<Rightarrow> t
                   | None \<Rightarrow> \<lparr>topic_symbol = symbol, subscribers = [], lastUpdate = 0\<rparr>)
      in case objects h sub of
           None \<Rightarrow> Inl PanicNilDereference
         | Some s \<Rightarrow>
             Inr (h\<lparr>topics := AList.update symbol
                                (topic\<lparr>subscribers := AList.update (ID s) sub (subscribers topic)\<rparr>)
                                (topics h),
                    activeSubscribers := activeSubscribers h + 1\<rparr>))"

definition Unsubscribe :: "'u Hub \<Rightarrow> string \<Rightarrow> string \<Rightarrow> error + 'u Hub" where
  "Unsubscribe h symbol subID =
     (case map_of (topics h) symbol of
        None \<Rightarrow> Inr h
      | Some topic \<Rightarrow>
          (case map_of (subscribers topic) subID of
             None \<Rightarrow> Inr h
           | Some sub \<Rightarrow>
               (case objects h sub of
                  None \<Rightarrow> Inl PanicNilDereference
                | Some s \<Rightarrow>
                    ebind (close_chan (SendChan s)) (\<lambda>c.
                      Inr (h\<lparr>objects := (objects h)(sub \<mapsto> s\<lparr>closed := True, SendChan := c\<rparr>),
                             topics := AList.update symbol
                                         (topic\<lparr>subscribers := AList.delete subID (subscribers topic)\<rparr>)
                                         (topics h),
                             activeSubscribers := activeSubscribers h - 1\<rparr>)))))"

definition handleSlowConsumer :: "'u Hub \<Rightarrow> string \<Rightarrow> string \<Rightarrow> error + 'u Hub" where
  "handleSlowConsumer h symbol subID = Unsubscribe h symbol subID"

text \<open>
  \<open>Publish_body\<close> is the body of the loop of \<open>Publish\<close> for one subscriber of the
  snapshot, \<open>Publish_loop\<close> the loop. \<open>now\<close> stands for the readings of the clock
  during one call.
\<close>

definition Publish_body :: "'u Hub \<Rightarrow> string \<Rightarrow> 'u \<Rightarrow> time \<Rightarrow> addr \<Rightarrow> error + 'u Hub" where
  "Publish_body h symbol upd now sub =
     (case objects h sub of
        None \<Rightarrow> Inl PanicNilDereference
      | Some s \<Rightarrow>
          if closed s then Inr h
          else
            ebind (try_send (SendChan s) upd) (\<lambda>sent.
              case sent of
                Some c \<Rightarrow> Inr (h\<lparr>objects := (objects h)(sub \<mapsto> s\<lparr>SendChan := c, LastSend := now\<rparr>)\<rparr>)
              | None \<Rightarrow>
                  (let s' = s\<lparr>Dropped := Dropped s + 1\<rparr>;
                       h' = h\<lparr>objects := (objects h)(sub \<mapsto> s'),
                              droppedMessages := droppedMessages h + 1\<rparr>
                   in if Dropped s' > slowThreshold h' then handleSlowConsumer h' symbol (ID s')
                      else Inr h')))"

fun Publish_loop :: "'u Hub \<Rightarrow> string \<Rightarrow> 'u \<Rightarrow> time \<Rightarrow> addr list \<Rightarrow> error + 'u Hub" where
  "Publish_loop h symbol upd now [] = Inr h"
| "Publish_loop h symbol upd now (sub # subs) =
     ebind (Publish_body h symbol upd now sub) (\<lambda>h'. Publish_loop h' symbol upd now subs)"

definition Publish :: "'u Hub \<Rightarrow> string \<Rightarrow> 'u \<Rightarrow> time \<Rightarrow> error + 'u Hub" where
  "Publish h symbol upd now =
     (case map_of (topics h) symbol of
        None \<Rightarrow> Inr h
      | Some topic \<Rightarrow>
          Publish_loop (h\<lparr>topics := AList.update symbol (topic\<lparr>lastUpdate := now\<rparr>) (topics h)\<rparr>)
                       symbol upd now (map snd (subscribers topic)))"

text \<open>
  \<open>CleanupZombies\<close> ranges over the topics that exist when it starts and, under the
  lock of each, over the subscribers of that topic.
\<close>

definition CleanupZombies_body :: "'u Hub \<Rightarrow> string \<Rightarrow> time \<Rightarrow> string \<times> addr \<Rightarrow> error + 'u Hub" where
  "CleanupZombies_body h symbol now entry =
     (case entry of (subID, sub) \<Rightarrow>
        (case objects h sub of
           None \<Rightarrow> Inl PanicNilDereference
         | Some s \<Rightarrow>
             if now - LastSend s > zombieTimeout h \<and> \<not> closed s then
               ebind (close_chan (SendChan s)) (\<lambda>c.
                 Inr (h\<lparr>objects := (objects h)(sub \<mapsto> s\<lparr>closed := True, SendChan := c\<rparr>),
                        topics := (case map_of (topics h) symbol of
                                     None \<Rightarrow> topics h
                                   | Some topic \<Rightarrow>
                                       AList.update symbol
                                         (topic\<lparr>subscribers := AList.delete subID (subscribers topic)\<rparr>)
                                         (topics h)),
                        activeSubscribers := activeSubscribers h - 1\<rparr>))
             else Inr h))"

fun CleanupZombies_subs :: "'u Hub \<Rightarrow> string \<Rightarrow> time \<Rightarrow> (string \<times> addr) list \<Rightarrow> error + 'u Hub" where
  "CleanupZombies_subs h symbol now [] = Inr h"
| "CleanupZombies_subs h symbol now (entry # entries) =
     ebind (CleanupZombies_body h symbol now entry) (\<lambda>h'. CleanupZombies_subs h' symbol now entries)"

fun CleanupZombies_topics :: "'u Hub \<Rightarrow> time \<Rightarrow> string list \<Rightarrow> error + 'u Hub" where
  "CleanupZombies_topics h now [] = Inr h"
| "CleanupZombies_topics h now (symbol # symbols) =
     ebind (case map_of (topics h) symbol of
              None \<Rightarrow> Inr h
            | Some topic \<Rightarrow> CleanupZombies_subs h symbol now (subscribers topic))
           (\<lambda>h'. CleanupZombies_topics h' now symbols)"

definition CleanupZombies :: "'u Hub \<Rightarrow> time \<Rightarrow> error + 'u Hub" where
  "CleanupZombies h now = CleanupZombies_topics h now (map fst (topics h))"

definition GetTopicStats :: "'u Hub \<Rightarrow> string \<Rightarrow> int \<times> time" where
  "GetTopicStats h symbol =
     (case map_of (topics h) symbol of
        None \<Rightarrow> (0, 0)
      | Some topic \<Rightarrow> (int (length (subscribers topic)), lastUpdate topic))"

subsection \<open>Sequences of hub operations\<close>

text \<open>
  A run of the hub is a list of calls. \<open>topic_sizes\<close> is the sum over all topics of
  the number of subscribers registered in the topic.
\<close>

datatype 'u hub_op =
    OpCreateSubscriber time string int int
  | OpSubscribe string addr
  | OpUnsubscribe string string
  | OpPublish string 'u time
  | OpCleanupZombies time

fun run_op :: "'u Hub \<Rightarrow> 'u hub_op \<Rightarrow> error + 'u Hub" where
  "run_op h (OpCreateSubscriber now sid tenantID apiKeyID) =
     ebind (CreateSubscriber h now sid tenantID apiKeyID) (\<lambda>r. Inr (snd r))"
| "run_op h (OpSubscribe symbol sub) = Subscribe h symbol sub"
| "run_op h (OpUnsubscribe symbol subID) = Unsubscribe h symbol subID"
| "run_op h (OpPublish symbol upd now) = Publish h symbol upd now"
| "run_op h (OpCleanupZombies now) = CleanupZombies h now"

fun run :: "'u Hub \<Rightarrow> 'u hub_op list \<Rightarrow> error + 'u Hub" where
  "run h [] = Inr h"
| "run h (op # ops) = ebind (run_op h op) (\<lambda>h'. run h' ops)"

definition topic_sizes :: "'u Hub \<Rightarrow> int" where
  "topic_sizes h = sum_list (map (\<lambda>entry. int (length (subscribers (snd entry)))) (topics h))"

definition after :: "('u Hub \<Rightarrow> 'a) \<Rightarrow> error + 'u Hub \<Rightarrow> error + 'a" where
  "after f r = map_sum id f r"

subsection \<open>What one publish does to one subscriber\<close>

text \<open>
  The definitions of this part serve the proofs about \<open>Publish\<close>. \<open>reg h symbol k\<close> is
  the pointer registered under the key \<open>k\<close> in the topic of \<open>symbol\<close>. \<open>obj_ok\<close> says
  that a closed queue belongs to a subscriber whose flag is set, and \<open>topic_wf\<close> that the
  topic of \<open>symbol\<close> maps each key once, to an object whose \<open>ID\<close> is the key.
  \<open>deliver_sub\<close>, \<open>drops\<close> and \<open>evicts\<close> describe the loop body of \<open>Publish\<close> on the
  subscriber record alone. \<open>evolves symbol K A h h'\<close> bounds the change from \<open>h\<close> to
  \<open>h'\<close>: only objects at addresses in \<open>A\<close> and registrations under keys in \<open>K\<close> may
  differ, registrations are only removed, and the counters move one way.
  \<open>Publish_all\<close> is the successive calls of \<open>Publish\<close> on one symbol, each with its
  update and its time.
\<close>

definition reg :: "'u Hub \<Rightarrow> string \<Rightarrow> string \<Rightarrow> addr option" where
  "reg h symbol k =
     (case map_of (topics h) symbol of None \<Rightarrow> None | Some t \<Rightarrow> map_of (subscribers t) k)"

definition obj_ok :: "'u Hub \<Rightarrow> bool" where
  "obj_ok h \<longleftrightarrow> (\<forall>b sb. objects h b = Some sb \<longrightarrow> chan_closed (SendChan sb) \<longrightarrow> closed sb)"

definition keys_distinct :: "'u Hub \<Rightarrow> string \<Rightarrow> bool" where
  "keys_distinct h symbol \<longleftrightarrow>
     (\<forall>t. map_of (topics h) symbol = Some t \<longrightarrow> distinct (map fst (subscribers t)))"

definition topic_wf :: "'u Hub \<Rightarrow> string \<Rightarrow> bool" where
  "topic_wf h symbol \<longleftrightarrow>
     obj_ok h \<and> keys_distinct h symbol \<and>
     (\<forall>k b. reg h symbol k = Some b \<longrightarrow> (\<exists>sb. objects h b = Some sb \<and> ID sb = k))"

definition drops :: "'u Subscriber \<Rightarrow> bool" where
  "drops s \<longleftrightarrow> \<not> closed s \<and> \<not> int (length (chan_buf (SendChan s))) < chan_cap (SendChan s)"

definition evicts :: "int \<Rightarrow> 'u Subscriber \<Rightarrow> bool" where
  "evicts T s \<longleftrightarrow> drops s \<and> Dropped s + 1 > T"

definition deliver_sub :: "int \<Rightarrow> 'u \<Rightarrow> time \<Rightarrow> 'u Subscriber \<Rightarrow> 'u Subscriber" where
  "deliver_sub T upd now s =
     (if closed s then s
      else if int (length (chan_buf (SendChan s))) < chan_cap (SendChan s)
           then s\<lparr>SendChan := (SendChan s)\<lparr>chan_buf := chan_buf (SendChan s) @ [upd]\<rparr>,
                   LastSend := now\<rparr>
      else if Dropped s + 1 > T
           then s\<lparr>Dropped := Dropped s + 1, closed := True,
                   SendChan := (SendChan s)\<lparr>chan_closed := True\<rparr>\<rparr>
      else s\<lparr>Dropped := Dropped s + 1\<rparr>)"

definition evolves :: "string \<Rightarrow> string set \<Rightarrow> addr set \<Rightarrow> 'u Hub \<Rightarrow> 'u Hub \<Rightarrow> bool" where
  "evolves symbol K A h h' \<longleftrightarrow>
     bufferSize h' = bufferSize h \<and> slowThreshold h' = slowThreshold h \<and>
     droppedMessages h \<le> droppedMessages h' \<and> activeSubscribers h' \<le> activeSubscribers h \<and>
     (obj_ok h \<longrightarrow> obj_ok h') \<and>
     (keys_distinct h symbol \<longrightarrow> keys_distinct h' symbol) \<and>
     (map_of (topics h) symbol \<noteq> None \<longrightarrow> map_of (topics h') symbol \<noteq> None) \<and>
     (\<forall>c. c \<notin> A \<longrightarrow> objects h' c = objects h c) \<and>
     (\<forall>c sc. objects h c = Some sc \<longrightarrow> (\<exists>sc'. objects h' c = Some sc' \<and> ID sc' = ID sc)) \<and>
     (\<forall>k. k \<notin> K \<longrightarrow> reg h' symbol k = reg h symbol k) \<and>
     (\<forall>k b. reg h' symbol k = Some b \<longrightarrow> reg h symbol k = Some b)"

fun Publish_all :: "'u Hub \<Rightarrow> string \<Rightarrow> ('u \<times> time) list \<Rightarrow> error + 'u Hub" where
  "Publish_all h symbol [] = Inr h"
| "Publish_all h symbol (u # us) =
     ebind (Publish h symbol (fst u) (snd u)) (\<lambda>h'. Publish_all h' symbol us)"

definition example_sub :: "string \<Rightarrow> nat Subscriber" where
  "example_sub sid =
     \<lparr>ID = sid, TenantID = 1, APIKeyID = 1,
      SendChan = \<lparr>chan_buf = [], chan_cap = 2, chan_closed = False\<rparr>,
      ConnectTime = 0, LastSend = 0, Dropped = 0, closed = False\<rparr>"

definition example_hub :: "nat Hub" where
  "example_hub =
     \<lparr>topics = [(''BTC'', \<lparr>topic_symbol = ''BTC'', subscribers = [(''s1'', 0), (''s2'', 1)],
                           lastUpdate = 0\<rparr>)],
      bufferSize = 2, slowThreshold = 1, zombieTimeout = 60,
      activeSubscribers = 2, droppedMessages = 0,
      objects = [0 \<mapsto> example_sub ''s1'', 1 \<mapsto> example_sub ''s2''],
      allocated = 2\<rparr>"

subsection \<open>The states a hub reaches\<close>

text \<open>
  \<open>hub_inv\<close> collects what holds of every state that the operations reach from a new
  hub: allocation is fresh, and every topic is well formed. \<open>shrinks h h'\<close> is the shape
  of the steps that only close subscribers and remove registrations.
\<close>

definition hub_inv :: "'u Hub \<Rightarrow> bool" where
  "hub_inv h \<longleftrightarrow>
     (\<forall>b. allocated h \<le> b \<longrightarrow> objects h b = None) \<and> (\<forall>symbol. topic_wf h symbol)"

definition shrinks :: "'u Hub \<Rightarrow> 'u Hub \<Rightarrow> bool" where
  "shrinks h h' \<longleftrightarrow>
     allocated h' = allocated h \<and>
     (\<forall>c. objects h c = None \<longrightarrow> objects h' c = None) \<and>
     (\<forall>c sc. objects h c = Some sc \<longrightarrow>
        (\<exists>sc'. objects h' c = Some sc' \<and> ID sc' = ID sc \<and>
               ((chan_closed (SendChan sc) \<longrightarrow> closed sc) \<longrightarrow>
                (chan_closed (SendChan sc') \<longrightarrow> closed sc')))) \<and>
     (\<forall>symbol k b. reg h' symbol k = Some b \<longrightarrow> reg h symbol k = Some b) \<and>
     (\<forall>symbol. keys_distinct h symbol \<longrightarrow> keys_distinct h' symbol)"

section \<open>Theorems\<close>

subsection \<open>The cache\<close>

lemma ebind_Inr [simp]: "ebind (Inr x) f = f x"
  by (simp add: ebind_def)

lemma ebind_Inl [simp]: "ebind (Inl e) f = Inl e"
  by (simp add: ebind_def)

lemma GetRecent_negative: "n < 0 \<Longrightarrow> GetRecent rb n = Inl PanicMakeSliceLen"
  by (simp add: GetRecent_def Let_def)

text \<open>
  C9. For a symbol that has a trade ring, \<open>GetRecentTrades\<close> with a negative count panics
  when it allocates the result slice (it does not return an empty result), whatever the
  ring holds; the REST handler only caps the count from above, so a negative count
  reaches the ring unchanged.
\<close>

theorem C9_GetRecentTrades_negative_panics:
  assumes "trades_of l symbol = Some rb" and "n < 0"
  shows "GetRecentTrades l symbol n = Inl PanicMakeSliceLen
       \<and> GetRecent rb n = Inl PanicMakeSliceLen
       \<and> handleGetTrades_count n = n
       \<and> GetRecentTrades l symbol (handleGetTrades_count n) = Inl PanicMakeSliceLen"
  using assms by (simp add: GetRecentTrades_def GetRecent_negative handleGetTrades_count_def)

subsection \<open>Ring recency\<close>

lemma smod_nonneg: "0 \<le> a \<Longrightarrow> 0 < b \<Longrightarrow> (a::int) smod b = a mod b"
  by (simp add: smod_int_alt_def sgn_if)

lemma go_rem_nonneg: "0 \<le> a \<Longrightarrow> 0 < b \<Longrightarrow> go_rem a b = Inr (a mod b)"
  by (simp add: go_rem_def smod_nonneg)

lemma ring_holds_new:
  "0 < cap \<Longrightarrow> ring_holds cap \<lparr>trades = replicate cap zeroTrade, head = 0, count = 0\<rparr> []"
  by (simp add: ring_holds_def)

lemma mod_slot_distinct:
  fixes k n cap :: nat
  assumes "k < n" "n < k + cap"
  shows "k mod cap \<noteq> n mod cap"
proof
  assume "k mod cap = n mod cap"
  then have "cap dvd (n - k)"
    using assms by (metis mod_eq_dvd_iff_nat less_imp_le_nat)
  moreover have "0 < n - k" "n - k < cap" using assms by auto
  ultimately show False by (auto dest: dvd_imp_le)
qed

lemma ring_holds_Add:
  assumes "0 < cap" "ring_holds cap rb ts"
  shows "\<exists>rb'. Add rb t = Inr rb' \<and> ring_holds cap rb' (ts @ [t])"
proof -
  let ?L = "length ts"
  from assms have len: "length (trades rb) = cap" and hd: "head rb = int (?L mod cap)"
    and cnt: "count rb = int (min ?L cap)"
    and slots: "\<forall>k < ?L. ?L \<le> k + cap \<longrightarrow> trades rb ! (k mod cap) = ts ! k"
    by (auto simp: ring_holds_def)
  let ?rb' = "\<lparr>trades = (trades rb)[?L mod cap := t], head = int (Suc ?L mod cap),
              count = int (min (Suc ?L) cap)\<rparr>"
  have h1: "(int (?L mod cap) + 1) mod int cap = int (Suc ?L mod cap)"
    by (metis Suc_eq_plus1 mod_Suc_eq of_nat_mod of_nat_1 of_nat_add)
  have h2: "?L mod cap < cap" using assms(1) by simp
  have h3: "go_rem (int (?L mod cap) + 1) (int cap) = Inr (int (Suc ?L mod cap))"
    using assms(1) h1 by (simp add: go_rem_nonneg)
  have "Add rb t = Inr ?rb'"
    using assms(1) len hd cnt h2 h3
    by (auto simp: Add_def Let_def min_def)
  moreover have "ring_holds cap ?rb' (ts @ [t])"
    unfolding ring_holds_def
  proof (intro conjI allI impI)
    fix k assume k: "k < length (ts @ [t])" and b: "length (ts @ [t]) \<le> k + cap"
    show "trades ?rb' ! (k mod cap) = (ts @ [t]) ! k"
    proof (cases "k = ?L")
      case True
      then show ?thesis using len assms(1) by simp
    next
      case False
      with k have kl: "k < ?L" by simp
      with b have "?L < k + cap" by simp
      with kl have "k mod cap \<noteq> ?L mod cap" by (rule mod_slot_distinct)
      moreover have "trades rb ! (k mod cap) = ts ! k" using slots kl b by simp
      ultimately show ?thesis using kl by (simp add: nth_append)
    qed
  qed (use len in simp_all)
  ultimately show ?thesis by blast
qed

lemma ring_holds_Add_all:
  "0 < cap \<Longrightarrow> ring_holds cap rb ts \<Longrightarrow>
   \<exists>rb'. Add_all rb us = Inr rb' \<and> ring_holds cap rb' (ts @ us)"
proof (induction us arbitrary: rb ts)
  case Nil
  then show ?case by simp
next
  case (Cons u us)
  from ring_holds_Add [OF Cons.prems, of u] obtain rb1
    where a: "Add rb u = Inr rb1" and h: "ring_holds cap rb1 (ts @ [u])" by blast
  from Cons.IH [OF Cons.prems(1) h] obtain rb2
    where "Add_all rb1 us = Inr rb2" "ring_holds cap rb2 ((ts @ [u]) @ us)" by blast
  with a show ?case by simp
qed

lemma fill_map:
  "(\<And>i. i \<in> set js \<Longrightarrow> body i = Inr (g i)) \<Longrightarrow> fill body js = Inr (map g js)"
  by (induction js) auto

lemma last_as_map:
  "m \<le> length xs \<Longrightarrow>
   map (\<lambda>i. xs ! (length xs - m + nat i)) (map int [0..<m]) = drop (length xs - m) xs"
  by (rule nth_equalityI) auto

lemma ring_index_int:
  fixes a m j c :: int
  shows "(a mod c - m + j + c) mod c = (a + (j - m)) mod c"
proof -
  have "a mod c - m + j + c = (a mod c + (j - m)) + c" by simp
  then have "(a mod c - m + j + c) mod c = (a mod c + (j - m)) mod c"
    by (metis mod_add_self2)
  then show ?thesis by (simp add: mod_add_left_eq)
qed

lemma ring_slot:
  assumes "0 < cap" "ring_holds cap rb ts" "k < length ts" "length ts \<le> k + cap"
  shows "index_at (trades rb) (int (k mod cap)) = Inr (ts ! k)"
proof -
  have "k mod cap < cap" using assms(1) by simp
  moreover have "length (trades rb) = cap" "trades rb ! (k mod cap) = ts ! k"
    using assms by (auto simp: ring_holds_def)
  ultimately show ?thesis by (simp add: index_at_def)
qed

lemma GetRecent_ring:
  assumes cap: "0 < cap" and inv: "ring_holds cap rb ts" and n0: "0 \<le> n0"
  shows "GetRecent rb n0 = Inr (drop (length ts - min (nat n0) (min (length ts) cap)) ts)"
proof -
  let ?L = "length ts"
  let ?m = "min (nat n0) (min ?L cap)"
  from inv have len: "length (trades rb) = cap" and hd: "head rb = int (?L mod cap)"
    and cnt: "count rb = int (min ?L cap)"
    by (auto simp: ring_holds_def)
  have n: "(if n0 > count rb then count rb else n0) = int ?m"
    using n0 cnt by (auto simp: min_def)
  have body: "ebind (go_rem (head rb - int ?m + i + int cap) (int cap)) (index_at (trades rb))
                = Inr (ts ! (?L - ?m + nat i))"
    if "i \<in> set (map int [0..<?m])" for i
  proof -
    from that obtain j where j: "i = int j" "j < ?m" by auto
    let ?k = "?L - ?m + j"
    have k: "?k < ?L" "?L \<le> ?k + cap" using j by auto
    have "?m \<le> cap" by simp
    then have "int ?m \<le> int cap" by (rule iffD2 [OF of_nat_le_iff])
    then have nonneg: "0 \<le> head rb - int ?m + i + int cap"
      unfolding hd j(1) by linarith
    have "int ?L + (int j - int ?m) = int ?k" using j by (simp add: min_def)
    with ring_index_int [of "int ?L" "int cap" "int ?m" "int j"]
    have eq: "(head rb - int ?m + i + int cap) mod int cap = int (?k mod cap)"
      unfolding hd j(1) by (simp only: of_nat_mod)
    have "0 < int cap" using cap by simp
    from go_rem_nonneg [OF nonneg this]
    have "go_rem (head rb - int ?m + i + int cap) (int cap) = Inr (int (?k mod cap))"
      by (simp only: eq)
    then show ?thesis using ring_slot [OF cap inv k] j by simp
  qed
  have "GetRecent rb n0 = fill (\<lambda>i. ebind (go_rem (head rb - int ?m + i + int cap) (int cap))
                                 (index_at (trades rb))) (map int [0..<?m])"
    unfolding GetRecent_def Let_def n len by simp
  also have "\<dots> = Inr (map (\<lambda>i. ts ! (?L - ?m + nat i)) (map int [0..<?m]))"
    by (rule fill_map) (rule body)
  also have "map (\<lambda>i. ts ! (?L - ?m + nat i)) (map int [0..<?m]) = drop (?L - ?m) ts"
    by (rule last_as_map) simp
  finally show ?thesis .
qed

lemma GetAll_ring:
  assumes cap: "0 < cap" and inv: "ring_holds cap rb ts"
  shows "GetAll rb = Inr (drop (length ts - cap) ts)"
proof -
  let ?L = "length ts"
  from inv have len: "length (trades rb) = cap" and hd: "head rb = int (?L mod cap)"
    and cnt: "count rb = int (min ?L cap)"
    and slots: "\<forall>k < ?L. ?L \<le> k + cap \<longrightarrow> trades rb ! (k mod cap) = ts ! k"
    by (auto simp: ring_holds_def)
  show ?thesis
  proof (cases "?L < cap")
    case True
    have "take ?L (trades rb) = ts"
    proof (rule nth_equalityI)
      show "length (take ?L (trades rb)) = length ts" using True len by simp
    next
      fix i assume "i < length (take ?L (trades rb))"
      then have i: "i < ?L" by simp
      with True slots have "trades rb ! (i mod cap) = ts ! i" by simp
      with i True show "take ?L (trades rb) ! i = ts ! i" by simp
    qed
    with True cnt len show ?thesis by (simp add: GetAll_def Let_def min_def)
  next
    case False
    then have c: "count rb = int cap" using cnt by (simp add: min_def)
    have body: "ebind (go_rem (head rb + i) (int cap)) (index_at (trades rb))
                  = Inr (ts ! (?L - cap + nat i))"
      if "i \<in> set (map int [0..<cap])" for i
    proof -
      from that obtain j where j: "i = int j" "j < cap" by auto
      let ?k = "?L - cap + j"
      have k: "?k < ?L" "?L \<le> ?k + cap" using j False by auto
      have "(?L mod cap + j) mod cap = ?k mod cap"
      proof -
        have "?k + cap = ?L + j" using False by simp
        then have "?k mod cap = (?L + j) mod cap" by (metis mod_add_self2)
        then show ?thesis by (simp add: mod_add_left_eq)
      qed
      then have "(int (?L mod cap) + int j) mod int cap = int (?k mod cap)"
        by (metis of_nat_add of_nat_mod)
      then have "go_rem (head rb + i) (int cap) = Inr (int (?k mod cap))"
        using cap hd j by (simp add: go_rem_nonneg)
      then show ?thesis using ring_slot [OF cap inv k] j by simp
    qed
    have "GetAll rb = fill (\<lambda>i. ebind (go_rem (head rb + i) (int cap)) (index_at (trades rb)))
                          (map int [0..<cap])"
      using c len by (simp add: GetAll_def Let_def)
    also have "\<dots> = Inr (map (\<lambda>i. ts ! (?L - cap + nat i)) (map int [0..<cap]))"
      by (rule fill_map) (rule body)
    also have "map (\<lambda>i. ts ! (?L - cap + nat i)) (map int [0..<cap]) = drop (?L - cap) ts"
      by (rule last_as_map) (use False in simp)
    finally show ?thesis .
  qed
qed

lemma layer_holds_None:
  "layer_holds cap l ts \<Longrightarrow> trades_of l symbol = None \<Longrightarrow> trades_for symbol ts = []"
  unfolding layer_holds_def by (erule conjE, drule spec [of _ symbol]) simp

lemma layer_holds_Some:
  "layer_holds cap l ts \<Longrightarrow> trades_of l symbol = Some rb \<Longrightarrow>
   ring_holds cap rb (trades_for symbol ts)"
  unfolding layer_holds_def by (erule conjE, drule spec [of _ symbol]) simp

lemma layer_holds_AddTrade:
  assumes cap: "0 < cap" and inv: "layer_holds cap l ts"
  shows "\<exists>l'. AddTrade l t = Inr l' \<and> layer_holds cap l' (ts @ [t])"
proof -
  let ?s = "TradeSymbol t"
  from inv have sz: "tradeSize l = int cap" by (simp add: layer_holds_def)
  have "\<exists>rb. (case trades_of l ?s of Some rb \<Rightarrow> Inr rb
                                      | None \<Rightarrow> NewTradeRingBuffer (tradeSize l)) = Inr rb
             \<and> ring_holds cap rb (trades_for ?s ts)"
  proof (cases "trades_of l ?s")
    case None
    with inv have "trades_for ?s ts = []" by (rule layer_holds_None)
    with None sz ring_holds_new [OF cap] show ?thesis
      by (simp add: NewTradeRingBuffer_def)
  next
    case (Some rb)
    with inv have "ring_holds cap rb (trades_for ?s ts)" by (rule layer_holds_Some)
    with Some show ?thesis by simp
  qed
  then obtain rb where rb: "(case trades_of l ?s of Some rb \<Rightarrow> Inr rb
                                      | None \<Rightarrow> NewTradeRingBuffer (tradeSize l)) = Inr rb"
    and h: "ring_holds cap rb (trades_for ?s ts)" by blast
  from ring_holds_Add [OF cap h, of t] obtain rb'
    where a: "Add rb t = Inr rb'" and h': "ring_holds cap rb' (trades_for ?s ts @ [t])" by blast
  let ?l' = "l\<lparr>trades_of := (trades_of l)(?s \<mapsto> rb')\<rparr>"
  have "AddTrade l t = Inr ?l'" using rb a by (simp add: AddTrade_def)
  moreover have "layer_holds cap ?l' (ts @ [t])"
    unfolding layer_holds_def
  proof (intro conjI allI)
    fix symbol
    show "case trades_of ?l' symbol of None \<Rightarrow> trades_for symbol (ts @ [t]) = []
          | Some rb \<Rightarrow> ring_holds cap rb (trades_for symbol (ts @ [t]))"
    proof (cases "symbol = ?s")
      case True
      then show ?thesis using h' by (simp add: trades_for_def)
    next
      case False
      then have "trades_for symbol (ts @ [t]) = trades_for symbol ts"
        by (auto simp: trades_for_def)
      moreover from inv have "case trades_of l symbol of None \<Rightarrow> trades_for symbol ts = []
          | Some rb \<Rightarrow> ring_holds cap rb (trades_for symbol ts)"
        by (simp add: layer_holds_def)
      ultimately show ?thesis using False by (simp split: option.splits)
    qed
  qed (use sz in simp)
  ultimately show ?thesis by blast
qed

lemma layer_holds_AddTrade_all:
  "0 < cap \<Longrightarrow> layer_holds cap l ts \<Longrightarrow>
   \<exists>l'. AddTrade_all l us = Inr l' \<and> layer_holds cap l' (ts @ us)"
proof (induction us arbitrary: l ts)
  case Nil
  then show ?case by simp
next
  case (Cons u us)
  from layer_holds_AddTrade [OF Cons.prems, of u] obtain l1
    where a: "AddTrade l u = Inr l1" and h: "layer_holds cap l1 (ts @ [u])" by blast
  from Cons.IH [OF Cons.prems(1) h] obtain l2
    where "AddTrade_all l1 us = Inr l2" "layer_holds cap l2 ((ts @ [u]) @ us)" by blast
  with a show ?case by simp
qed

lemma layer_holds_NewLayer: "layer_holds cap (NewLayer md (int cap)) []"
  by (simp add: layer_holds_def NewLayer_def trades_for_def)

lemma GetRecentTrades_layer:
  assumes cap: "0 < cap" and inv: "layer_holds cap l ts" and n: "0 \<le> n"
  shows "GetRecentTrades l symbol n
         = Inr (last_n (min (nat n) (min (length (trades_for symbol ts)) cap))
                       (trades_for symbol ts))"
proof (cases "trades_of l symbol")
  case None
  with inv have "trades_for symbol ts = []" by (rule layer_holds_None)
  with None show ?thesis by (simp add: GetRecentTrades_def last_n_def)
next
  case (Some rb)
  with inv have "ring_holds cap rb (trades_for symbol ts)" by (rule layer_holds_Some)
  from GetRecent_ring [OF cap this n] Some show ?thesis
    by (simp add: GetRecentTrades_def last_n_def)
qed

text \<open>
  C7. A ring of capacity \<open>cap > 0\<close> that has received the trades \<open>ts\<close> through \<open>Add\<close>
  holds \<open>min (length ts) cap\<close> of them; once more than \<open>cap\<close> were added, \<open>GetAll\<close>
  returns exactly the last \<open>cap\<close> in insertion order; and for every \<open>n \<ge> 0\<close>,
  \<open>GetRecent\<close> returns the last \<open>min n count\<close> of them, oldest first. On a layer
  that received \<open>ts\<close> through \<open>AddTrade\<close>, \<open>GetRecentTrades symbol n\<close> returns the last
  \<open>min n count\<close> trades of that symbol, oldest first. None of these calls panics.
\<close>

theorem C7_ring_recency:
  fixes ts :: "('f::zero) Trade list"
  assumes "0 < cap"
  shows "(\<exists>rb. ebind (NewTradeRingBuffer cap) (\<lambda>rb0. Add_all rb0 ts) = Inr rb
            \<and> count rb = min (int (length ts)) cap
            \<and> (cap < int (length ts) \<longrightarrow> GetAll rb = Inr (last_n (nat cap) ts))
            \<and> (\<forall>n. 0 \<le> n \<longrightarrow> GetRecent rb n = Inr (last_n (nat (min n (count rb))) ts)))
       \<and> (\<exists>l. AddTrade_all (NewLayer md cap) ts = Inr l
            \<and> (\<forall>symbol n. 0 \<le> n \<longrightarrow>
                  GetRecentTrades l symbol n
                  = Inr (last_n (nat (min n (min (int (length (trades_for symbol ts))) cap)))
                               (trades_for symbol ts))))"
proof -
  define c where "c = nat cap"
  with assms have c: "0 < c" "cap = int c" by simp_all
  have new: "(NewTradeRingBuffer cap :: error + 'f TradeRingBuffer)
             = Inr \<lparr>trades = replicate c zeroTrade, head = 0, count = 0\<rparr>"
    using c by (simp add: NewTradeRingBuffer_def)
  from ring_holds_Add_all [OF c(1) ring_holds_new [OF c(1)], of ts] obtain rb
    where rb: "Add_all \<lparr>trades = replicate c zeroTrade, head = 0, count = 0\<rparr> ts = Inr rb"
      and h: "ring_holds c rb ts" by auto
  have cnt: "count rb = min (int (length ts)) cap"
    using h c by (simp add: ring_holds_def)
  have nat_min: "nat (min n (min (int k) (int c))) = min (nat n) (min k c)" for n k
    unfolding min_def by (cases "0 \<le> n") (auto simp: nat_le_iff)
  have "ebind (NewTradeRingBuffer cap) (\<lambda>rb0. Add_all rb0 ts) = Inr rb"
    using new rb by simp
  moreover have "cap < int (length ts) \<longrightarrow> GetAll rb = Inr (last_n (nat cap) ts)"
    using GetAll_ring [OF c(1) h] c by (simp add: last_n_def)
  moreover have "\<forall>n. 0 \<le> n \<longrightarrow> GetRecent rb n = Inr (last_n (nat (min n (count rb))) ts)"
    using GetRecent_ring [OF c(1) h] cnt c by (simp add: last_n_def nat_min)
  moreover
  from layer_holds_AddTrade_all [OF c(1) layer_holds_NewLayer [of c md], where us = ts] obtain l
    where l: "AddTrade_all (NewLayer md cap) ts = Inr l" and lh: "layer_holds c l ts"
    using c by auto
  have "\<forall>symbol n. 0 \<le> n \<longrightarrow>
           GetRecentTrades l symbol n
           = Inr (last_n (nat (min n (min (int (length (trades_for symbol ts))) cap)))
                        (trades_for symbol ts))"
    using GetRecentTrades_layer [OF c(1) lh] c by (simp add: nat_min)
  ultimately show ?thesis using cnt l by blast
qed

subsection \<open>Depth bound and sequence numbers\<close>

lemma trim_nonneg: "0 \<le> md \<Longrightarrow> trim xs md = Inr (take (nat md) xs)"
  by (auto simp: trim_def slice_to_def)

lemma trim_length: "trim xs md = Inr ys \<Longrightarrow> int (length ys) \<le> md"
  by (auto simp: trim_def slice_to_def split: if_splits)

lemma copyOrderbook_id [simp]: "copyOrderbook (s :: 'f OrderbookSnapshot) = s"
  by (simp add: copyOrderbook_def)

lemma UpdateOrderbook_nonneg:
  "0 \<le> maxDepth l \<Longrightarrow>
   UpdateOrderbook l snapshot =
     Inr (l\<lparr>orderbooks := (orderbooks l)(Symbol snapshot \<mapsto>
            snapshot\<lparr>Asks := take (nat (maxDepth l)) (Asks snapshot),
                     Bids := take (nat (maxDepth l)) (Bids snapshot)\<rparr>)\<rparr>)"
  by (simp add: UpdateOrderbook_def trim_nonneg)

lemma UpdateOrderbook_stored:
  assumes "UpdateOrderbook l snapshot = Inr l'"
  shows "\<exists>asks bids. trim (Asks snapshot) (maxDepth l) = Inr asks
           \<and> trim (Bids snapshot) (maxDepth l) = Inr bids
           \<and> l' = l\<lparr>orderbooks := (orderbooks l)(Symbol snapshot \<mapsto>
                      snapshot\<lparr>Asks := asks, Bids := bids\<rparr>)\<rparr>"
proof (cases "trim (Asks snapshot) (maxDepth l)")
  case (Inl e)
  with assms show ?thesis by (simp add: UpdateOrderbook_def)
next
  case a: (Inr asks)
  show ?thesis
  proof (cases "trim (Bids snapshot) (maxDepth l)")
    case (Inl e)
    with assms a show ?thesis by (simp add: UpdateOrderbook_def)
  next
    case (Inr bids)
    with assms a show ?thesis by (auto simp: UpdateOrderbook_def)
  qed
qed

lemma depth_ok_UpdateOrderbook:
  assumes "depth_ok l" "UpdateOrderbook l snapshot = Inr l'"
  shows "depth_ok l'"
proof -
  from UpdateOrderbook_stored [OF assms(2)] obtain asks bids
    where a: "trim (Asks snapshot) (maxDepth l) = Inr asks"
      and b: "trim (Bids snapshot) (maxDepth l) = Inr bids"
      and l': "l' = l\<lparr>orderbooks := (orderbooks l)(Symbol snapshot \<mapsto>
                      snapshot\<lparr>Asks := asks, Bids := bids\<rparr>)\<rparr>" by blast
  from trim_length [OF a] trim_length [OF b] assms(1) show ?thesis
    unfolding l' depth_ok_def by auto
qed

lemma depth_ok_AddTrade:
  assumes "depth_ok l" "AddTrade l t = Inr l'"
  shows "depth_ok l'"
proof -
  from assms(2) have "orderbooks l' = orderbooks l \<and> maxDepth l' = maxDepth l"
    by (auto simp: AddTrade_def ebind_def split: sum.splits)
  with assms(1) show ?thesis by (simp add: depth_ok_def)
qed

lemma depth_ok_Cleanup: "depth_ok l \<Longrightarrow> depth_ok (Cleanup l now thr)"
  by (auto simp: depth_ok_def Cleanup_def split: if_splits)

lemma depth_ok_NewLayer: "depth_ok (NewLayer md ts)"
  by (simp add: depth_ok_def NewLayer_def)

lemma sorted_wrt_take_drop:
  assumes "sorted_wrt better xs"
  shows "\<forall>x \<in> set (take n xs). \<forall>y \<in> set (drop n xs). better x y"
proof -
  from assms have "sorted_wrt better (take n xs @ drop n xs)" by simp
  then show ?thesis unfolding sorted_wrt_append by blast
qed

text \<open>
  C6. With a non-negative \<open>maxDepth\<close>, \<open>UpdateOrderbook\<close> returns and the snapshot that
  \<open>GetOrderbook\<close> then shows has, on each side, the first \<open>maxDepth\<close> levels of the
  snapshot passed in; when a side is sorted (by any ordering of levels), every level kept
  comes before every level dropped, so the levels kept are the best ones. The bound
  \<open>depth_ok\<close> holds of a new layer and is preserved by \<open>UpdateOrderbook\<close>, \<open>AddTrade\<close>
  and \<open>Cleanup\<close>, the operations that change the layer.
\<close>

theorem C6_depth_bound:
  fixes l :: "('f::zero) Layer"
  assumes "0 \<le> maxDepth l"
  shows "(\<exists>l'. UpdateOrderbook l snapshot = Inr l'
            \<and> GetOrderbook l' (Symbol snapshot)
                = Some (snapshot\<lparr>Asks := take (nat (maxDepth l)) (Asks snapshot),
                                 Bids := take (nat (maxDepth l)) (Bids snapshot)\<rparr>)
            \<and> (depth_ok l \<longrightarrow> depth_ok l'))
       \<and> (sorted_wrt better_ask (Asks snapshot) \<longrightarrow>
            (\<forall>x \<in> set (take (nat (maxDepth l)) (Asks snapshot)).
             \<forall>y \<in> set (drop (nat (maxDepth l)) (Asks snapshot)). better_ask x y))
       \<and> (sorted_wrt better_bid (Bids snapshot) \<longrightarrow>
            (\<forall>x \<in> set (take (nat (maxDepth l)) (Bids snapshot)).
             \<forall>y \<in> set (drop (nat (maxDepth l)) (Bids snapshot)). better_bid x y))
       \<and> depth_ok (NewLayer (maxDepth l) (tradeSize l) :: 'f Layer)
       \<and> (depth_ok l \<longrightarrow>
            depth_ok (Cleanup l now staleThreshold)
          \<and> (\<forall>t l'. AddTrade l t = Inr l' \<longrightarrow> depth_ok l')
          \<and> (\<forall>s l'. UpdateOrderbook l s = Inr l' \<longrightarrow> depth_ok l'))"
proof -
  let ?l' = "l\<lparr>orderbooks := (orderbooks l)(Symbol snapshot \<mapsto>
            snapshot\<lparr>Asks := take (nat (maxDepth l)) (Asks snapshot),
                     Bids := take (nat (maxDepth l)) (Bids snapshot)\<rparr>)\<rparr>"
  have u: "UpdateOrderbook l snapshot = Inr ?l'"
    using assms by (rule UpdateOrderbook_nonneg)
  have "GetOrderbook ?l' (Symbol snapshot)
                = Some (snapshot\<lparr>Asks := take (nat (maxDepth l)) (Asks snapshot),
                                 Bids := take (nat (maxDepth l)) (Bids snapshot)\<rparr>)"
    by (simp add: GetOrderbook_def)
  moreover have "depth_ok l \<longrightarrow> depth_ok ?l'"
    using depth_ok_UpdateOrderbook [OF _ u] by blast
  ultimately have first: "\<exists>l'. UpdateOrderbook l snapshot = Inr l'
            \<and> GetOrderbook l' (Symbol snapshot)
                = Some (snapshot\<lparr>Asks := take (nat (maxDepth l)) (Asks snapshot),
                                 Bids := take (nat (maxDepth l)) (Bids snapshot)\<rparr>)
            \<and> (depth_ok l \<longrightarrow> depth_ok l')"
    using u by blast
  show ?thesis
    using first sorted_wrt_take_drop [of better_ask "Asks snapshot"]
      sorted_wrt_take_drop [of better_bid "Bids snapshot"]
      depth_ok_NewLayer depth_ok_Cleanup depth_ok_AddTrade depth_ok_UpdateOrderbook
    by blast
qed

text \<open>
  C3. \<open>UpdateOrderbook\<close> stores the snapshot it is given without looking at
  the sequence number cached before: after \<open>UpdateOrderbook s1\<close> and then
  \<open>UpdateOrderbook s2\<close> for the same symbol, \<open>GetOrderbook\<close> shows the sequence of
  \<open>s1\<close> and then the sequence of \<open>s2\<close>, whichever is larger.
\<close>

theorem C3_sequence_is_last_written:
  assumes "UpdateOrderbook l s1 = Inr l1" and "UpdateOrderbook l1 s2 = Inr l2"
    and "Symbol s1 = Symbol s2"
  shows "visible_sequence l1 (Symbol s1) = Some (Sequence s1)
       \<and> visible_sequence l2 (Symbol s1) = Some (Sequence s2)
       \<and> sequence_after l [s1, s2] (Symbol s1) = Inr (Some (Sequence s2))"
proof -
  from UpdateOrderbook_stored [OF assms(1)]
  have 1: "visible_sequence l1 (Symbol s1) = Some (Sequence s1)"
    by (auto simp: visible_sequence_def GetOrderbook_def)
  from UpdateOrderbook_stored [OF assms(2)] assms(3)
  have 2: "visible_sequence l2 (Symbol s1) = Some (Sequence s2)"
    by (auto simp: visible_sequence_def GetOrderbook_def)
  from 1 2 assms(1,2) show ?thesis by (simp add: sequence_after_def)
qed

text \<open>
  The sequence shown for a symbol goes backward when the caller delivers a smaller one:
  after the updates with sequences 5 and 3, the cache shows 3 where it showed 5.
\<close>

theorem C3_counterexample:
  "sequence_after (NewLayer 100 1000) [example_snapshot ''BTC'' 5 [] []] ''BTC'' = Inr (Some 5)
 \<and> sequence_after (NewLayer 100 1000)
      [example_snapshot ''BTC'' 5 [] [], example_snapshot ''BTC'' 3 [] []] ''BTC'' = Inr (Some 3)"
  by (simp add: sequence_after_def visible_sequence_def GetOrderbook_def UpdateOrderbook_def
      trim_def NewLayer_def example_snapshot_def)

subsection \<open>The cache theorems at concrete inputs\<close>

theorem C9_witness:
  "AddTrade (NewLayer 100 2) (example_trade ''BTC'' ''t1'')
     = Inr ((NewLayer 100 2)\<lparr>trades_of :=
              [''BTC'' \<mapsto> \<lparr>trades = [example_trade ''BTC'' ''t1'', zeroTrade],
                                head = 1, count = 1\<rparr>]\<rparr>)
 \<and> (- 1 :: int) < 0
 \<and> GetRecentTrades ((NewLayer 100 2)\<lparr>trades_of :=
              [''BTC'' \<mapsto> \<lparr>trades = [example_trade ''BTC'' ''t1'', zeroTrade],
                                head = 1, count = 1\<rparr>]\<rparr>) ''BTC'' (- 1)
     = Inl PanicMakeSliceLen"
proof -
  let ?rb = "\<lparr>trades = [example_trade ''BTC'' ''t1'', zeroTrade], head = 1, count = 1\<rparr>"
  let ?l = "(NewLayer 100 2)\<lparr>trades_of := [''BTC'' \<mapsto> ?rb]\<rparr>"
  have a: "AddTrade (NewLayer 100 2) (example_trade ''BTC'' ''t1'') = Inr ?l"
    by (simp add: AddTrade_def NewLayer_def example_trade_def NewTradeRingBuffer_def Add_def
        go_rem_def smod_int_alt_def numeral_2_eq_2)
  have r: "trades_of ?l ''BTC'' = Some ?rb" by simp
  have n: "(- 1 :: int) < 0" by simp
  from C9_GetRecentTrades_negative_panics [OF r n] a n show ?thesis by simp
qed

lemma TradeSymbol_example [simp]: "TradeSymbol (example_trade symbol tid) = symbol"
  by (simp add: example_trade_def)

theorem C7_witness:
  "0 < (2::int)
 \<and> (\<exists>rb. ebind (NewTradeRingBuffer 2)
             (\<lambda>rb0. Add_all rb0 [example_trade ''BTC'' ''a'', example_trade ''ETH'' ''b'',
                                  example_trade ''BTC'' ''c'']) = Inr rb
        \<and> GetAll rb = Inr [example_trade ''ETH'' ''b'', example_trade ''BTC'' ''c'']
        \<and> GetRecent rb 1 = Inr [example_trade ''BTC'' ''c''])
 \<and> (\<exists>l. AddTrade_all (NewLayer 100 2)
             [example_trade ''BTC'' ''a'', example_trade ''ETH'' ''b'',
              example_trade ''BTC'' ''c''] = Inr l
        \<and> GetRecentTrades l ''BTC'' 5
            = Inr [example_trade ''BTC'' ''a'', example_trade ''BTC'' ''c''])"
proof -
  let ?ts = "[example_trade ''BTC'' ''a'', example_trade ''ETH'' ''b'',
              example_trade ''BTC'' ''c'']"
  have h: "0 < (2::int)" by simp
  note inst = C7_ring_recency [OF h, of "?ts" 100]
  from inst [THEN conjunct1] obtain rb
    where rb: "ebind (NewTradeRingBuffer 2) (\<lambda>rb0. Add_all rb0 ?ts) = Inr rb"
      and cnt: "count rb = min (int (length ?ts)) 2"
      and ga: "2 < int (length ?ts) \<longrightarrow> GetAll rb = Inr (last_n (nat 2) ?ts)"
      and gr: "\<forall>n. 0 \<le> n \<longrightarrow> GetRecent rb n = Inr (last_n (nat (min n (count rb))) ?ts)"
    by blast
  from ga have 1: "GetAll rb = Inr [example_trade ''ETH'' ''b'', example_trade ''BTC'' ''c'']"
    by (simp add: last_n_def)
  from gr have "GetRecent rb 1 = Inr (last_n (nat (min 1 (count rb))) ?ts)" by simp
  with cnt have 2: "GetRecent rb 1 = Inr [example_trade ''BTC'' ''c'']"
    by (simp add: last_n_def)
  from inst [THEN conjunct2] obtain l
    where l: "AddTrade_all (NewLayer 100 2) ?ts = Inr l"
      and g: "\<forall>symbol n. 0 \<le> n \<longrightarrow>
                  GetRecentTrades l symbol n
                  = Inr (last_n (nat (min n (min (int (length (trades_for symbol ?ts))) 2)))
                               (trades_for symbol ?ts))"
    by blast
  from g have "GetRecentTrades l ''BTC'' 5
                  = Inr (last_n (nat (min 5 (min (int (length (trades_for ''BTC'' ?ts))) 2)))
                               (trades_for ''BTC'' ?ts))" by simp
  then have 3: "GetRecentTrades l ''BTC'' 5
            = Inr [example_trade ''BTC'' ''a'', example_trade ''BTC'' ''c'']"
    by (simp add: last_n_def trades_for_def)
  from h rb 1 2 l 3 show ?thesis by blast
qed

theorem C6_witness:
  "0 \<le> maxDepth (NewLayer 2 10 :: int Layer)
 \<and> (\<exists>l'. UpdateOrderbook (NewLayer 2 10) (example_snapshot ''BTC'' 7 [1, 2, 3] [9, 8, 7, 6]) = Inr l'
        \<and> GetOrderbook l' ''BTC'' = Some (example_snapshot ''BTC'' 7 [1, 2] [9, 8])
        \<and> depth_ok l')"
proof -
  let ?l = "NewLayer 2 10 :: int Layer"
  let ?s = "example_snapshot ''BTC'' 7 [1, 2, 3] [9, 8, 7, 6]"
  have h: "0 \<le> maxDepth ?l" by (simp add: NewLayer_def)
  have d: "depth_ok ?l" by (simp add: depth_ok_def NewLayer_def)
  from C6_depth_bound [OF h, THEN conjunct1, of ?s] d obtain l'
    where u: "UpdateOrderbook ?l ?s = Inr l'"
      and g: "GetOrderbook l' (Symbol ?s)
                = Some (?s\<lparr>Asks := take (nat (maxDepth ?l)) (Asks ?s),
                            Bids := take (nat (maxDepth ?l)) (Bids ?s)\<rparr>)"
      and d': "depth_ok l'"
    by blast
  from g have "GetOrderbook l' ''BTC'' = Some (example_snapshot ''BTC'' 7 [1, 2] [9, 8])"
    by (simp add: example_snapshot_def NewLayer_def numeral_2_eq_2)
  with h u d' show ?thesis by blast
qed

theorem C3_witness:
  "sequence_after (NewLayer 100 1000)
     [example_snapshot ''BTC'' 3 [] [], example_snapshot ''BTC'' 5 [] []] ''BTC'' = Inr (Some 5)"
proof -
  let ?l = "NewLayer 100 1000 :: int Layer"
  let ?s1 = "example_snapshot ''BTC'' 3 [] []"
  let ?s2 = "example_snapshot ''BTC'' 5 [] []"
  let ?l1 = "?l\<lparr>orderbooks := [''BTC'' \<mapsto> ?s1]\<rparr>"
  let ?l2 = "?l\<lparr>orderbooks := [''BTC'' \<mapsto> ?s2]\<rparr>"
  have 1: "UpdateOrderbook ?l ?s1 = Inr ?l1"
    by (simp add: UpdateOrderbook_def trim_def NewLayer_def example_snapshot_def)
  have 2: "UpdateOrderbook ?l1 ?s2 = Inr ?l2"
    by (simp add: UpdateOrderbook_def trim_def NewLayer_def example_snapshot_def)
  have 3: "Symbol ?s1 = Symbol ?s2" by (simp add: example_snapshot_def)
  from C3_sequence_is_last_written [OF 1 2 3] show ?thesis
    by (simp add: example_snapshot_def)
qed

subsection \<open>The rate limiter\<close>

lemma AcquireStream_existing:
  assumes "streams_of l key = Some sl"
  shows "\<exists>l'. AcquireStream l now key m = Inr (activeStreams sl < maxStreams sl, l')
           \<and> streams_of l' key = Some (snd (Acquire sl))"
  using assms
  by (auto simp: AcquireStream_def getOrCreate_def streams_of_def Acquire_def
      split: option.splits)

lemma AcquireStreams_free:
  assumes "streams_of l key = Some sl" "activeStreams sl + int n \<le> maxStreams sl"
  shows "\<exists>l'. AcquireStreams l now key m n = Inr (replicate n True, l')
           \<and> streams_of l' key = Some (sl\<lparr>activeStreams := activeStreams sl + int n\<rparr>)"
  using assms
proof (induction n arbitrary: l sl)
  case 0
  then show ?case by simp
next
  case (Suc n)
  from AcquireStream_existing [OF Suc.prems(1), of now m] obtain l1
    where a: "AcquireStream l now key m = Inr (activeStreams sl < maxStreams sl, l1)"
      and s: "streams_of l1 key = Some (snd (Acquire sl))" by blast
  from Suc.prems(2) have lt: "activeStreams sl < maxStreams sl" by simp
  then have acq: "snd (Acquire sl) = sl\<lparr>activeStreams := activeStreams sl + 1\<rparr>"
    by (simp add: Acquire_def)
  from Suc.IH [of l1 "sl\<lparr>activeStreams := activeStreams sl + 1\<rparr>"] s acq Suc.prems(2)
  obtain l2 where "AcquireStreams l1 now key m n = Inr (replicate n True, l2)"
    and "streams_of l2 key = Some (sl\<lparr>activeStreams := activeStreams sl + 1 + int n\<rparr>)"
    by auto
  with a lt show ?case by (simp add: add.assoc add.commute)
qed

text \<open>
  C10. For a key that already has a limiter, \<open>SetLimit\<close> with a non-negative \<open>mx\<close>
  leaves the key with a new semaphore of maximum \<open>mx\<close> and no active stream, whatever
  was held before; the next \<open>mx\<close> calls of \<open>AcquireStream\<close> are all admitted; and
  a \<open>ReleaseStream\<close> straight after \<open>SetLimit\<close> (for a stream acquired before it)
  finds the count at 0 and leaves it there.
\<close>

theorem C10_SetLimit_forgets_held_streams:
  assumes "limiters l key = Some limiter" and "0 \<le> mx"
  shows "streams_of (SetLimit l now key rps mx) key
           = Some \<lparr>maxStreams = mx, activeStreams = 0\<rparr>
       \<and> (\<exists>l'. AcquireStreams (SetLimit l now key rps mx) now' key m (nat mx)
                  = Inr (replicate (nat mx) True, l')
              \<and> streams_of l' key
                  = Some \<lparr>maxStreams = mx, activeStreams = mx\<rparr>)
       \<and> streams_of (ReleaseStream (SetLimit l now key rps mx) key) key
           = Some \<lparr>maxStreams = mx, activeStreams = 0\<rparr>"
proof -
  let ?l = "SetLimit l now key rps mx"
  let ?sl = "\<lparr>maxStreams = mx, activeStreams = 0\<rparr>"
  have s: "streams_of ?l key = Some ?sl"
    using assms(1) by (simp add: SetLimit_def streams_of_def NewStreamLimiter_def)
  have "activeStreams ?sl + int (nat mx) \<le> maxStreams ?sl"
    using assms(2) by simp
  from AcquireStreams_free [OF s this, of now' m]
  have "\<exists>l'. AcquireStreams ?l now' key m (nat mx)
                  = Inr (replicate (nat mx) True, l')
              \<and> streams_of l' key
                  = Some \<lparr>maxStreams = mx, activeStreams = mx\<rparr>"
    using assms(2) by simp
  moreover have "streams_of (ReleaseStream ?l key) key = Some ?sl"
    using s by (auto simp: ReleaseStream_def streams_of_def Release_def split: option.splits)
  ultimately show ?thesis using s by blast
qed

text \<open>
  C5. The semaphore of a key is created by whichever call touches the key first. When
  that call is \<open>Allow\<close>, the maximum is the limiter's default request rate: with a
  default of 100 requests per second, a key first seen by \<open>Allow\<close> gets a semaphore of
  maximum 100, and two successive \<open>AcquireStream\<close> calls that ask for a maximum of 1
  are both admitted. On a key first seen by \<open>AcquireStream\<close> the second call is refused.
\<close>

theorem C5_failing_input:
  "answers (AcquireStreams (snd (Allow (NewLimiter example_config) 0 ''k'' True)) 1 ''k'' 1 2)
     = Inr [True, True]
 \<and> streams_of (snd (Allow (NewLimiter example_config) 0 ''k'' True)) ''k''
     = Some \<lparr>maxStreams = 100, activeStreams = 0\<rparr>
 \<and> answers (AcquireStreams (NewLimiter example_config) 1 ''k'' 1 2) = Inr [True, False]"
  by (simp add: answers_def Allow_def NewLimiter_def example_config_def getOrCreate_def
      AcquireStream_def Acquire_def NewStreamLimiter_def streams_of_def numeral_2_eq_2
      Let_def go_trunc_def)

theorem C10_witness:
  "limiters example_limiter ''k'' = Some example_client \<and> (0::int) \<le> 2
 \<and> streams_of example_limiter ''k'' = Some \<lparr>maxStreams = 2, activeStreams = 2\<rparr>
 \<and> streams_of (SetLimit example_limiter 5 ''k'' 50 2) ''k''
      = Some \<lparr>maxStreams = 2, activeStreams = 0\<rparr>
 \<and> (\<exists>l'. AcquireStreams (SetLimit example_limiter 5 ''k'' 50 2) 6 ''k'' 2 2
             = Inr ([True, True], l'))"
proof -
  have h: "limiters example_limiter ''k'' = Some example_client"
    by (simp add: example_limiter_def)
  have s: "streams_of example_limiter ''k'' = Some \<lparr>maxStreams = 2, activeStreams = 2\<rparr>"
    by (simp add: example_limiter_def example_client_def streams_of_def)
  have m: "(0::int) \<le> 2" by simp
  from C10_SetLimit_forgets_held_streams [OF h m, of 5 50 6 2] h s show ?thesis
    by (auto simp: numeral_2_eq_2)
qed

subsection \<open>Authentication\<close>

lemma Authenticate_redis_eq: "Authenticate_redis s db clk keyHash = Authenticate_database s db clk keyHash"
  by (simp add: Authenticate_redis_def getFromRedis_def)

lemma Authenticate_miss:
  assumes "apiKey \<noteq> []" "\<not> cache_usable s clk (hashAPIKey apiKey)"
  shows "fst (Authenticate s hashAPIKey db clk apiKey)
         = fst (Authenticate_database s db clk (hashAPIKey apiKey))"
  using assms
  by (auto simp: Authenticate_def cache_usable_def Authenticate_redis_eq Authenticate_database_def Let_def
      split: option.splits query_result.splits)

text \<open>
  C8. An empty credential gives \<open>ErrMissingAPIKey\<close>. A credential whose hash has a
  usable cached record gets that record with no error. Otherwise the database decides:
  no row gives \<open>ErrInvalidAPIKey\<close>; a row that is not valid gives
  \<open>ErrSuspendedTenant\<close> for a suspended tenant, else \<open>ErrRevokedAPIKey\<close> for a revoked
  key, else \<open>ErrExpiredAPIKey\<close> for a key that is expired by status or by a past
  \<open>ExpiresAt\<close>, else \<open>ErrInvalidAPIKey\<close>; a valid row is returned with no error,
  stamped with the time of caching.
\<close>

theorem C8_Authenticate_classification:
  "fst (Authenticate s hashAPIKey db clk []) = Inl ErrMissingAPIKey
 \<and> (apiKey \<noteq> [] \<and> cache_usable s clk (hashAPIKey apiKey) \<longrightarrow>
      (\<exists>authCtx. fst (Authenticate s hashAPIKey db clk apiKey) = Inr authCtx
                \<and> cache s (hashAPIKey apiKey) = Some authCtx
                \<and> IsValid authCtx (now_cached clk)))
 \<and> (apiKey \<noteq> [] \<and> \<not> cache_usable s clk (hashAPIKey apiKey) \<longrightarrow>
      (db (hashAPIKey apiKey) = ErrNoRows \<longrightarrow>
         fst (Authenticate s hashAPIKey db clk apiKey) = Inl ErrInvalidAPIKey)
    \<and> (\<forall>authCtx. db (hashAPIKey apiKey) = Row authCtx \<longrightarrow>
         (IsValid authCtx (now_valid clk) \<longrightarrow>
            fst (Authenticate s hashAPIKey db clk apiKey)
              = Inr (authCtx\<lparr>CachedAt := now_stamp clk\<rparr>))
       \<and> (\<not> IsValid authCtx (now_valid clk) \<longrightarrow>
            (TenantStatus authCtx = TenantStatusSuspended \<longrightarrow>
               fst (Authenticate s hashAPIKey db clk apiKey) = Inl ErrSuspendedTenant)
          \<and> (TenantStatus authCtx \<noteq> TenantStatusSuspended
               \<and> APIKeyStatus authCtx = APIKeyStatusRevoked \<longrightarrow>
               fst (Authenticate s hashAPIKey db clk apiKey) = Inl ErrRevokedAPIKey)
          \<and> (TenantStatus authCtx \<noteq> TenantStatusSuspended
               \<and> APIKeyStatus authCtx \<noteq> APIKeyStatusRevoked
               \<and> (APIKeyStatus authCtx = APIKeyStatusExpired
                    \<or> expired_before (ExpiresAt authCtx) (now_expiry clk)) \<longrightarrow>
               fst (Authenticate s hashAPIKey db clk apiKey) = Inl ErrExpiredAPIKey)
          \<and> (TenantStatus authCtx \<noteq> TenantStatusSuspended
               \<and> APIKeyStatus authCtx \<noteq> APIKeyStatusRevoked
               \<and> APIKeyStatus authCtx \<noteq> APIKeyStatusExpired
               \<and> \<not> expired_before (ExpiresAt authCtx) (now_expiry clk) \<longrightarrow>
               fst (Authenticate s hashAPIKey db clk apiKey) = Inl ErrInvalidAPIKey))))"
proof (intro conjI impI allI)
  show "fst (Authenticate s hashAPIKey db clk []) = Inl ErrMissingAPIKey"
    by (simp add: Authenticate_def)
next
  assume "apiKey \<noteq> [] \<and> cache_usable s clk (hashAPIKey apiKey)"
  then show "\<exists>authCtx. fst (Authenticate s hashAPIKey db clk apiKey) = Inr authCtx
                \<and> cache s (hashAPIKey apiKey) = Some authCtx
                \<and> IsValid authCtx (now_cached clk)"
    by (auto simp: Authenticate_def cache_usable_def getFromCache_def Let_def
        split: option.splits if_splits)
qed (simp_all add: Authenticate_miss Authenticate_database_def Authenticate_classify_def Let_def)

theorem C8_witness:
  "fst (Authenticate example_service example_hash
          (example_db (example_row TenantStatusDeleted APIKeyStatusActive None))
          (example_clock 10) ''secret'') = Inl ErrInvalidAPIKey
 \<and> fst (Authenticate example_service example_hash
          (example_db (example_row TenantStatusActive APIKeyStatusActive (Some 9)))
          (example_clock 10) ''secret'') = Inl ErrExpiredAPIKey
 \<and> fst (Authenticate example_service example_hash
          (example_db (example_row TenantStatusActive APIKeyStatusActive (Some 11)))
          (example_clock 10) ''secret'')
      = Inr (example_row TenantStatusActive APIKeyStatusActive (Some 11)\<lparr>CachedAt := 10\<rparr>)"
proof -
  have miss: "''secret'' \<noteq> [] \<and> \<not> cache_usable example_service (example_clock 10) (example_hash ''secret'')"
    by (simp add: cache_usable_def getFromCache_def example_service_def)
  have row: "example_db x (example_hash ''secret'') = Row x" for x
    by (simp add: example_db_def example_hash_def)
  have 1: "\<not> IsValid (example_row TenantStatusDeleted APIKeyStatusActive None) (now_valid (example_clock 10))"
    by (simp add: IsValid_def example_row_def TenantStatusDeleted_def TenantStatusActive_def)
  have 2: "\<not> IsValid (example_row TenantStatusActive APIKeyStatusActive (Some 9)) (now_valid (example_clock 10))"
    by (simp add: IsValid_def example_row_def expired_before_def example_clock_def)
  have 3: "IsValid (example_row TenantStatusActive APIKeyStatusActive (Some 11)) (now_valid (example_clock 10))"
    by (simp add: IsValid_def example_row_def expired_before_def example_clock_def)
  have c8: "(IsValid x (now_valid (example_clock 10)) \<longrightarrow>
            fst (Authenticate example_service example_hash (example_db x) (example_clock 10) ''secret'')
              = Inr (x\<lparr>CachedAt := now_stamp (example_clock 10)\<rparr>))
       \<and> (\<not> IsValid x (now_valid (example_clock 10)) \<longrightarrow>
            (TenantStatus x \<noteq> TenantStatusSuspended
               \<and> APIKeyStatus x \<noteq> APIKeyStatusRevoked
               \<and> (APIKeyStatus x = APIKeyStatusExpired
                    \<or> expired_before (ExpiresAt x) (now_expiry (example_clock 10))) \<longrightarrow>
               fst (Authenticate example_service example_hash (example_db x) (example_clock 10) ''secret'')
                 = Inl ErrExpiredAPIKey)
          \<and> (TenantStatus x \<noteq> TenantStatusSuspended
               \<and> APIKeyStatus x \<noteq> APIKeyStatusRevoked
               \<and> APIKeyStatus x \<noteq> APIKeyStatusExpired
               \<and> \<not> expired_before (ExpiresAt x) (now_expiry (example_clock 10)) \<longrightarrow>
               fst (Authenticate example_service example_hash (example_db x) (example_clock 10) ''secret'')
                 = Inl ErrInvalidAPIKey))" for x
    using C8_Authenticate_classification [of example_service example_hash "example_db x"
        "example_clock 10" "''secret''"] miss row [of x]
    by simp
  have a: "fst (Authenticate example_service example_hash
          (example_db (example_row TenantStatusDeleted APIKeyStatusActive None))
          (example_clock 10) ''secret'') = Inl ErrInvalidAPIKey"
    using c8 [of "example_row TenantStatusDeleted APIKeyStatusActive None"] 1
    by (simp add: example_row_def expired_before_def TenantStatusDeleted_def
        TenantStatusSuspended_def APIKeyStatusActive_def APIKeyStatusRevoked_def
        APIKeyStatusExpired_def)
  have b: "fst (Authenticate example_service example_hash
          (example_db (example_row TenantStatusActive APIKeyStatusActive (Some 9)))
          (example_clock 10) ''secret'') = Inl ErrExpiredAPIKey"
    using c8 [of "example_row TenantStatusActive APIKeyStatusActive (Some 9)"] 2
    by (simp add: example_row_def expired_before_def example_clock_def TenantStatusActive_def
        TenantStatusSuspended_def APIKeyStatusActive_def APIKeyStatusRevoked_def
        APIKeyStatusExpired_def)
  have c: "fst (Authenticate example_service example_hash
          (example_db (example_row TenantStatusActive APIKeyStatusActive (Some 11)))
          (example_clock 10) ''secret'')
      = Inr (example_row TenantStatusActive APIKeyStatusActive (Some 11)\<lparr>CachedAt := 10\<rparr>)"
    using c8 [of "example_row TenantStatusActive APIKeyStatusActive (Some 11)"] 3
    by (simp add: example_clock_def)
  from a b c show ?thesis by blast
qed

subsection \<open>The hub at concrete inputs\<close>

lemmas hub_eval =
  NewHub_def CreateSubscriber_def make_chan_def Subscribe_def
  Unsubscribe_def close_chan_def Publish_def Publish_body_def try_send_def
  handleSlowConsumer_def CleanupZombies_def CleanupZombies_body_def after_def topic_sizes_def
  Let_def AList.delete_eq

text \<open>
  C1. \<open>Unsubscribe\<close> sets the closed flag and closes the queue without reading the flag
  first. A subscriber registered in the topics BTC and ETH is closed by
  \<open>Unsubscribe\<close> for BTC; \<open>Unsubscribe\<close> for ETH then closes the same queue a second
  time, which panics. The run up to the first \<open>Unsubscribe\<close> returns, with the flag set
  and the subscriber still registered in ETH.
\<close>

theorem C1_double_close:
  "run (NewHub 4 3 60 :: nat Hub)
     [OpCreateSubscriber 0 ''s1'' 1 1, OpSubscribe ''BTC'' 0, OpSubscribe ''ETH'' 0,
      OpUnsubscribe ''BTC'' ''s1'', OpUnsubscribe ''ETH'' ''s1'']
     = Inl PanicCloseOfClosedChannel
 \<and> run (NewHub 4 3 60 :: nat Hub)
     [OpCreateSubscriber 0 ''s1'' 1 1, OpSubscribe ''BTC'' 0, OpSubscribe ''ETH'' 0,
      OpUnsubscribe ''BTC'' ''s1'']
     = Inr \<lparr>topics = [(''BTC'', \<lparr>topic_symbol = ''BTC'', subscribers = [], lastUpdate = 0\<rparr>),
                       (''ETH'', \<lparr>topic_symbol = ''ETH'', subscribers = [(''s1'', 0)],
                                 lastUpdate = 0\<rparr>)],
            bufferSize = 4, slowThreshold = 3, zombieTimeout = 60,
            activeSubscribers = 1, droppedMessages = 0,
            objects = [0 \<mapsto> \<lparr>ID = ''s1'', TenantID = 1, APIKeyID = 1,
                               SendChan = \<lparr>chan_buf = [], chan_cap = 4, chan_closed = True\<rparr>,
                               ConnectTime = 0, LastSend = 0, Dropped = 0, closed = True\<rparr>],
            allocated = 1\<rparr>"
  by (simp add: hub_eval)

text \<open>
  C4. \<open>Subscribe\<close> adds one to the counter on every call, also when the subscriber
  is already registered in the topic and the map keeps its size: after two calls of
  \<open>Subscribe\<close> with the same symbol and the same subscriber the counter is 2 and the
  topic holds one subscriber.
\<close>

theorem C4_double_subscribe:
  "after activeSubscribers (run (NewHub 4 3 60 :: nat Hub)
        [OpCreateSubscriber 0 ''s1'' 1 1, OpSubscribe ''BTC'' 0, OpSubscribe ''BTC'' 0]) = Inr 2
 \<and> after topic_sizes (run (NewHub 4 3 60 :: nat Hub)
        [OpCreateSubscriber 0 ''s1'' 1 1, OpSubscribe ''BTC'' 0, OpSubscribe ''BTC'' 0]) = Inr 1"
  by (simp add: hub_eval)

subsection \<open>Back-pressure\<close>

lemma evolves_refl: "evolves symbol K A h h"
  unfolding evolves_def by blast

lemma evolves_config:
  "evolves symbol K A h h' \<Longrightarrow> bufferSize h' = bufferSize h \<and> slowThreshold h' = slowThreshold h"
  unfolding evolves_def by blast

lemma evolves_counters:
  "evolves symbol K A h h' \<Longrightarrow>
   droppedMessages h \<le> droppedMessages h' \<and> activeSubscribers h' \<le> activeSubscribers h"
  unfolding evolves_def by blast

lemma evolves_obj_ok: "evolves symbol K A h h' \<Longrightarrow> obj_ok h \<Longrightarrow> obj_ok h'"
  unfolding evolves_def by blast

lemma evolves_keys: "evolves symbol K A h h' \<Longrightarrow> keys_distinct h symbol \<Longrightarrow> keys_distinct h' symbol"
  unfolding evolves_def by blast

lemma evolves_topic:
  "evolves symbol K A h h' \<Longrightarrow> map_of (topics h) symbol \<noteq> None \<Longrightarrow> map_of (topics h') symbol \<noteq> None"
  unfolding evolves_def by blast

lemma evolves_objects: "evolves symbol K A h h' \<Longrightarrow> c \<notin> A \<Longrightarrow> objects h' c = objects h c"
  unfolding evolves_def by blast

lemma evolves_ID:
  "evolves symbol K A h h' \<Longrightarrow> objects h c = Some sc \<Longrightarrow>
   \<exists>sc'. objects h' c = Some sc' \<and> ID sc' = ID sc"
  unfolding evolves_def by blast

lemma evolves_reg: "evolves symbol K A h h' \<Longrightarrow> k \<notin> K \<Longrightarrow> reg h' symbol k = reg h symbol k"
  unfolding evolves_def by blast

lemma evolves_reg_removed:
  "evolves symbol K A h h' \<Longrightarrow> reg h' symbol k = Some b \<Longrightarrow> reg h symbol k = Some b"
  unfolding evolves_def by blast

lemma evolves_trans:
  assumes 1: "evolves symbol K1 A1 h1 h2" and 2: "evolves symbol K2 A2 h2 h3"
  shows "evolves symbol (K1 \<union> K2) (A1 \<union> A2) h1 h3"
  unfolding evolves_def
proof (intro conjI allI impI)
  show "bufferSize h3 = bufferSize h1" "slowThreshold h3 = slowThreshold h1"
    using evolves_config [OF 1] evolves_config [OF 2] by simp_all
  show "droppedMessages h1 \<le> droppedMessages h3" "activeSubscribers h3 \<le> activeSubscribers h1"
    using evolves_counters [OF 1] evolves_counters [OF 2] by simp_all
  show "obj_ok h3" if "obj_ok h1"
    using that by (intro evolves_obj_ok [OF 2] evolves_obj_ok [OF 1])
  show "keys_distinct h3 symbol" if "keys_distinct h1 symbol"
    using that by (intro evolves_keys [OF 2] evolves_keys [OF 1])
  show "map_of (topics h3) symbol \<noteq> None" if "map_of (topics h1) symbol \<noteq> None"
    using that by (intro evolves_topic [OF 2] evolves_topic [OF 1])
  show "objects h3 c = objects h1 c" if "c \<notin> A1 \<union> A2" for c
    using that evolves_objects [OF 1, of c] evolves_objects [OF 2, of c] by simp
  show "\<exists>sc'. objects h3 c = Some sc' \<and> ID sc' = ID sc" if "objects h1 c = Some sc" for c sc
  proof -
    from evolves_ID [OF 1 that] obtain sc2 where "objects h2 c = Some sc2" "ID sc2 = ID sc"
      by blast
    with evolves_ID [OF 2, of c sc2] show ?thesis by simp
  qed
  show "reg h3 symbol k = reg h1 symbol k" if "k \<notin> K1 \<union> K2" for k
    using that evolves_reg [OF 1, of k] evolves_reg [OF 2, of k] by simp
  show "reg h1 symbol k = Some b" if "reg h3 symbol k = Some b" for k b
    using that by (intro evolves_reg_removed [OF 1] evolves_reg_removed [OF 2])
qed

lemma reg_Some:
  "reg h symbol k = Some b \<longleftrightarrow>
   (\<exists>t. map_of (topics h) symbol = Some t \<and> map_of (subscribers t) k = Some b)"
  by (auto simp: reg_def split: option.splits)

lemma reg_touch [simp]:
  "map_of (topics h) symbol = Some t \<Longrightarrow>
   reg (h\<lparr>topics := AList.update symbol (t\<lparr>lastUpdate := now\<rparr>) (topics h)\<rparr>) symbol k
     = reg h symbol k"
  by (simp add: reg_def update_conv')


lemma Publish_body_eq:
  assumes obj: "objects h b = Some sb"
    and ok: "chan_closed (SendChan sb) \<longrightarrow> closed sb"
    and top: "map_of (topics h) symbol = Some t"
    and rg: "map_of (subscribers t) (ID sb) = Some b"
  shows "Publish_body h symbol upd now b =
     Inr (h\<lparr>objects := (objects h)(b \<mapsto> deliver_sub (slowThreshold h) upd now sb),
            droppedMessages := droppedMessages h + (if drops sb then 1 else 0),
            topics := (if evicts (slowThreshold h) sb
                       then AList.update symbol
                              (t\<lparr>subscribers := AList.delete (ID sb) (subscribers t)\<rparr>) (topics h)
                       else topics h),
            activeSubscribers := activeSubscribers h - (if evicts (slowThreshold h) sb then 1 else 0)\<rparr>)"
proof (cases "closed sb")
  case True
  have "h\<lparr>objects := (objects h)(b \<mapsto> sb)\<rparr> = h" using obj by (simp add: fun_upd_idem)
  with True obj show ?thesis
    by (simp add: Publish_body_def deliver_sub_def drops_def evicts_def)
next
  case False
  with ok have nc: "\<not> chan_closed (SendChan sb)" by simp
  show ?thesis
  proof (cases "int (length (chan_buf (SendChan sb))) < chan_cap (SendChan sb)")
    case True
    with False nc obj show ?thesis
      by (simp add: Publish_body_def deliver_sub_def drops_def evicts_def try_send_def)
  next
    case full: False
    show ?thesis
    proof (cases "Dropped sb + 1 > slowThreshold h")
      case True
      with False nc obj full top rg show ?thesis
        by (simp add: Publish_body_def deliver_sub_def drops_def evicts_def try_send_def
            handleSlowConsumer_def Unsubscribe_def close_chan_def Let_def)
    next
      case False
      with \<open>\<not> closed sb\<close> nc obj full show ?thesis
        by (simp add: Publish_body_def deliver_sub_def drops_def evicts_def try_send_def Let_def)
    qed
  qed
qed


lemma deliver_sub_ID [simp]: "ID (deliver_sub T upd now s) = ID s"
  by (simp add: deliver_sub_def)

lemma deliver_sub_ok:
  "(chan_closed (SendChan s) \<longrightarrow> closed s) \<Longrightarrow>
   chan_closed (SendChan (deliver_sub T upd now s)) \<longrightarrow> closed (deliver_sub T upd now s)"
  by (auto simp: deliver_sub_def)

lemma obj_okD: "obj_ok h \<Longrightarrow> objects h b = Some sb \<Longrightarrow> chan_closed (SendChan sb) \<longrightarrow> closed sb"
  unfolding obj_ok_def by blast

lemma reg_evict:
  "map_of (topics h) symbol = Some t \<Longrightarrow>
   reg (h\<lparr>topics := AList.update symbol
                        (t\<lparr>subscribers := AList.delete k0 (subscribers t)\<rparr>) (topics h)\<rparr>) symbol k
     = (if k = k0 then None else reg h symbol k)"
  by (simp add: reg_def update_conv' delete_conv')

lemma Publish_body_step:
  assumes obj: "objects h b = Some sb" and ok: "obj_ok h" and rg: "reg h symbol (ID sb) = Some b"
  shows "\<exists>h'. Publish_body h symbol upd now b = Inr h'
           \<and> evolves symbol {ID sb} {b} h h'
           \<and> objects h' b = Some (deliver_sub (slowThreshold h) upd now sb)
           \<and> reg h' symbol (ID sb) = (if evicts (slowThreshold h) sb then None else Some b)
           \<and> droppedMessages h' = droppedMessages h + (if drops sb then 1 else 0)
           \<and> activeSubscribers h'
               = activeSubscribers h - (if evicts (slowThreshold h) sb then 1 else 0)"
proof -
  from rg obtain t where top: "map_of (topics h) symbol = Some t"
    and rt: "map_of (subscribers t) (ID sb) = Some b"
    unfolding reg_Some by blast
  let ?s' = "deliver_sub (slowThreshold h) upd now sb"
  let ?ev = "evicts (slowThreshold h) sb"
  let ?t' = "t\<lparr>subscribers := AList.delete (ID sb) (subscribers t)\<rparr>"
  let ?h' = "h\<lparr>objects := (objects h)(b \<mapsto> ?s'),
            droppedMessages := droppedMessages h + (if drops sb then 1 else 0),
            topics := (if ?ev then AList.update symbol ?t' (topics h) else topics h),
            activeSubscribers := activeSubscribers h - (if ?ev then 1 else 0)\<rparr>"
  have eq: "Publish_body h symbol upd now b = Inr ?h'"
    by (rule Publish_body_eq [OF obj obj_okD [OF ok obj] top rt])
  have regs: "reg ?h' symbol k = (if ?ev \<and> k = ID sb then None else reg h symbol k)" for k
  proof (cases ?ev)
    case True
    then show ?thesis using reg_evict [OF top, of "ID sb" k] by (simp add: reg_def)
  next
    case False
    then show ?thesis by (simp add: reg_def)
  qed
  have objs: "objects ?h' c = (if c = b then Some ?s' else objects h c)" for c
    by simp
  have okh: "obj_ok ?h'"
    unfolding obj_ok_def
  proof (intro allI impI)
    fix c sc assume c: "objects ?h' c = Some sc" and cl: "chan_closed (SendChan sc)"
    show "closed sc"
    proof (cases "c = b")
      case True
      with c have "sc = ?s'" by simp
      with cl deliver_sub_ok [OF obj_okD [OF ok obj], of "slowThreshold h" upd now]
      show ?thesis by simp
    next
      case False
      with c have "objects h c = Some sc" by simp
      from obj_okD [OF ok this] cl show ?thesis by simp
    qed
  qed
  have kd: "keys_distinct ?h' symbol" if "keys_distinct h symbol"
  proof -
    from that top have d: "distinct (map fst (subscribers t))"
      unfolding keys_distinct_def by blast
    show ?thesis
    proof (cases ?ev)
      case True
      then show ?thesis using d by (simp add: keys_distinct_def update_conv' distinct_delete)
    next
      case False
      then show ?thesis using that by (simp add: keys_distinct_def)
    qed
  qed
  have tp: "map_of (topics ?h') symbol \<noteq> None"
    using top by (simp add: update_conv')
  have ev: "evolves symbol {ID sb} {b} h ?h'"
    unfolding evolves_def
  proof (intro conjI allI impI)
    show "\<exists>sc'. objects ?h' c = Some sc' \<and> ID sc' = ID sc" if "objects h c = Some sc" for c sc
      using that obj by (cases "c = b") simp_all
    show "reg ?h' symbol k = reg h symbol k" if "k \<notin> {ID sb}" for k
      using that regs [of k] by simp
    show "reg h symbol k = Some c" if "reg ?h' symbol k = Some c" for k c
      using that regs [of k] by (simp split: if_splits)
    show "objects ?h' c = objects h c" if "c \<notin> {b}" for c
      using that by simp
  qed (use okh kd tp in simp_all)
  have "reg ?h' symbol (ID sb) = (if ?ev then None else Some b)"
    using regs [of "ID sb"] rg by simp
  with eq ev show ?thesis by (intro exI [of _ ?h']) simp
qed


lemma Publish_loop_append:
  "Publish_loop h symbol upd now (xs @ ys)
     = ebind (Publish_loop h symbol upd now xs) (\<lambda>h'. Publish_loop h' symbol upd now ys)"
proof (induction xs arbitrary: h)
  case Nil
  then show ?case by simp
next
  case (Cons x xs)
  show ?case
  proof (cases "Publish_body h symbol upd now x")
    case (Inl e)
    then show ?thesis by simp
  next
    case (Inr h1)
    then show ?thesis using Cons.IH [of h1] by simp
  qed
qed

lemma Publish_loop_evolves:
  assumes "obj_ok h" and "distinct (map fst es)"
    and "\<And>k b. (k, b) \<in> set es \<Longrightarrow>
              reg h symbol k = Some b \<and> (\<exists>sb. objects h b = Some sb \<and> ID sb = k)"
  shows "\<exists>h'. Publish_loop h symbol upd now (map snd es) = Inr h'
           \<and> evolves symbol (fst ` set es) (snd ` set es) h h'"
  using assms
proof (induction es arbitrary: h)
  case Nil
  then show ?case by (simp add: evolves_refl)
next
  case (Cons e es)
  obtain k b where e: "e = (k, b)" by (cases e)
  from Cons.prems(3) [of k b] e obtain sb
    where rg: "reg h symbol k = Some b" and obj: "objects h b = Some sb" and idk: "ID sb = k"
    by auto
  from Publish_body_step [OF obj Cons.prems(1), of symbol upd now] rg idk obtain h1
    where b1: "Publish_body h symbol upd now b = Inr h1"
      and ev1: "evolves symbol {k} {b} h h1"
    by auto
  have ok1: "obj_ok h1" using ev1 Cons.prems(1) by (rule evolves_obj_ok)
  have d: "distinct (map fst es)" and knot: "k \<notin> fst ` set es"
    using Cons.prems(2) e by auto
  have rest: "reg h1 symbol k' = Some b' \<and> (\<exists>sb'. objects h1 b' = Some sb' \<and> ID sb' = k')"
    if "(k', b') \<in> set es" for k' b'
  proof -
    from that knot have ne: "k' \<notin> {k}" by force
    from Cons.prems(3) [of k' b'] that obtain sb'
      where r: "reg h symbol k' = Some b'" and o: "objects h b' = Some sb'" and i: "ID sb' = k'"
      by auto
    from evolves_reg [OF ev1 ne] r have "reg h1 symbol k' = Some b'" by simp
    moreover from evolves_ID [OF ev1 o] i have "\<exists>sb'. objects h1 b' = Some sb' \<and> ID sb' = k'"
      by auto
    ultimately show ?thesis by simp
  qed
  from Cons.IH [OF ok1 d rest] obtain h2
    where l2: "Publish_loop h1 symbol upd now (map snd es) = Inr h2"
      and ev2: "evolves symbol (fst ` set es) (snd ` set es) h1 h2"
    by blast
  from evolves_trans [OF ev1 ev2] e
  have "evolves symbol (fst ` set (e # es)) (snd ` set (e # es)) h h2" by simp
  moreover have "Publish_loop h symbol upd now (map snd (e # es)) = Inr h2"
    using b1 l2 e by simp
  ultimately show ?case by blast
qed


lemma touch_evolves:
  assumes "map_of (topics h) symbol = Some t"
  shows "evolves symbol {} {} h
           (h\<lparr>topics := AList.update symbol (t\<lparr>lastUpdate := now\<rparr>) (topics h)\<rparr>)"
  unfolding evolves_def
proof (intro conjI allI impI)
  show "keys_distinct (h\<lparr>topics := AList.update symbol (t\<lparr>lastUpdate := now\<rparr>) (topics h)\<rparr>) symbol"
    if "keys_distinct h symbol"
    using that assms by (simp add: keys_distinct_def update_conv')
  show "obj_ok (h\<lparr>topics := AList.update symbol (t\<lparr>lastUpdate := now\<rparr>) (topics h)\<rparr>)"
    if "obj_ok h"
    using that by (simp add: obj_ok_def)
qed (use assms in \<open>simp_all add: update_conv'\<close>)

lemma topic_wf_entry:
  assumes "topic_wf h symbol" "map_of (topics h) symbol = Some t" "(k, b) \<in> set (subscribers t)"
  shows "reg h symbol k = Some b \<and> (\<exists>sb. objects h b = Some sb \<and> ID sb = k)"
proof -
  from assms(1,2) have "distinct (map fst (subscribers t))"
    unfolding topic_wf_def keys_distinct_def by blast
  with assms(3) have "map_of (subscribers t) k = Some b" by simp
  with assms(2) have r: "reg h symbol k = Some b" unfolding reg_Some by blast
  with assms(1) show ?thesis unfolding topic_wf_def by blast
qed

lemma Publish_tracked:
  assumes wf: "topic_wf h symbol" and rg: "reg h symbol (ID s) = Some a"
    and obj: "objects h a = Some s"
  shows "\<exists>h'. Publish h symbol upd now = Inr h'
           \<and> topic_wf h' symbol
           \<and> bufferSize h' = bufferSize h \<and> slowThreshold h' = slowThreshold h
           \<and> objects h' a = Some (deliver_sub (slowThreshold h) upd now s)
           \<and> reg h' symbol (ID s) = (if evicts (slowThreshold h) s then None else Some a)
           \<and> droppedMessages h + (if drops s then 1 else 0) \<le> droppedMessages h'
           \<and> activeSubscribers h'
               \<le> activeSubscribers h - (if evicts (slowThreshold h) s then 1 else 0)"
proof -
  from rg obtain t where top: "map_of (topics h) symbol = Some t"
    and rt: "map_of (subscribers t) (ID s) = Some a"
    unfolding reg_Some by blast
  from wf top have dk: "distinct (map fst (subscribers t))"
    unfolding topic_wf_def keys_distinct_def by blast
  from rt have "(ID s, a) \<in> set (subscribers t)" by (rule map_of_SomeD)
  then obtain pre post where sp: "subscribers t = pre @ (ID s, a) # post"
    by (auto dest: split_list)
  from dk sp have dpre: "distinct (map fst pre)" and dpost: "distinct (map fst post)"
    and kpre: "ID s \<notin> fst ` set pre" and kpost: "ID s \<notin> fst ` set post"
    and disj: "fst ` set pre \<inter> fst ` set post = {}"
    by auto
  have entry: "reg h symbol k = Some b \<and> (\<exists>sb. objects h b = Some sb \<and> ID sb = k)"
    if "(k, b) \<in> set pre \<or> (k, b) \<in> set post" for k b
    using that topic_wf_entry [OF wf top, of k b] sp by auto
  have apre: "a \<notin> snd ` set pre"
  proof
    assume "a \<in> snd ` set pre"
    then obtain k where k: "(k, a) \<in> set pre" by force
    with entry [of k a] obj have "k = ID s" by auto
    with k kpre show False by force
  qed
  have apost: "a \<notin> snd ` set post"
  proof
    assume "a \<in> snd ` set post"
    then obtain k where k: "(k, a) \<in> set post" by force
    with entry [of k a] obj have "k = ID s" by auto
    with k kpost show False by force
  qed
  let ?h0 = "h\<lparr>topics := AList.update symbol (t\<lparr>lastUpdate := now\<rparr>) (topics h)\<rparr>"
  have ev0: "evolves symbol {} {} h ?h0" using top by (rule touch_evolves)
  have ok: "obj_ok h" using wf unfolding topic_wf_def by blast
  have ok0: "obj_ok ?h0" using ev0 ok by (rule evolves_obj_ok)
  \<comment> \<open>the subscribers before \<open>a\<close> in the snapshot\<close>
  have pre0: "reg ?h0 symbol k = Some b \<and> (\<exists>sb. objects ?h0 b = Some sb \<and> ID sb = k)"
    if "(k, b) \<in> set pre" for k b
    using entry [of k b] that top by simp
  from Publish_loop_evolves [OF ok0 dpre pre0, where upd = upd and now = now] obtain h1
    where l1: "Publish_loop ?h0 symbol upd now (map snd pre) = Inr h1"
      and ev1: "evolves symbol (fst ` set pre) (snd ` set pre) ?h0 h1"
    by blast
  have ok1: "obj_ok h1" using ev1 ok0 by (rule evolves_obj_ok)
  have obj1: "objects h1 a = Some s" using evolves_objects [OF ev1 apre] obj by simp
  have rg1: "reg h1 symbol (ID s) = Some a" using evolves_reg [OF ev1 kpre] rg top by simp
  have th1: "slowThreshold h1 = slowThreshold h" using evolves_config [OF ev1] by simp
  \<comment> \<open>the subscriber \<open>a\<close>\<close>
  from Publish_body_step [OF obj1 ok1 rg1, of upd now] th1 obtain h2
    where b2: "Publish_body h1 symbol upd now a = Inr h2"
      and ev2: "evolves symbol {ID s} {a} h1 h2"
      and obj2: "objects h2 a = Some (deliver_sub (slowThreshold h) upd now s)"
      and rg2: "reg h2 symbol (ID s) = (if evicts (slowThreshold h) s then None else Some a)"
      and dm2: "droppedMessages h2 = droppedMessages h1 + (if drops s then 1 else 0)"
      and as2: "activeSubscribers h2
                 = activeSubscribers h1 - (if evicts (slowThreshold h) s then 1 else 0)"
    by auto
  have ok2: "obj_ok h2" using ev2 ok1 by (rule evolves_obj_ok)
  \<comment> \<open>the subscribers after \<open>a\<close>\<close>
  have post2: "reg h2 symbol k = Some b \<and> (\<exists>sb. objects h2 b = Some sb \<and> ID sb = k)"
    if "(k, b) \<in> set post" for k b
  proof -
    from that have kin: "k \<in> fst ` set post" by force
    have n1: "k \<notin> fst ` set pre" using kin disj by blast
    have n2: "k \<notin> {ID s}" using kin kpost by blast
    from entry [of k b] that obtain sb
      where r: "reg h symbol k = Some b" and o: "objects h b = Some sb" and i: "ID sb = k"
      by auto
    from evolves_reg [OF ev2 n2] evolves_reg [OF ev1 n1] r top
    have "reg h2 symbol k = Some b" by simp
    moreover from evolves_ID [OF ev0 o] obtain s0 where "objects ?h0 b = Some s0" "ID s0 = k"
      using i by auto
    with evolves_ID [OF ev1, of b s0] obtain s1 where "objects h1 b = Some s1" "ID s1 = k"
      by auto
    with evolves_ID [OF ev2, of b s1] have "\<exists>sb. objects h2 b = Some sb \<and> ID sb = k"
      by auto
    ultimately show ?thesis by simp
  qed
  from Publish_loop_evolves [OF ok2 dpost post2, where upd = upd and now = now] obtain h3
    where l3: "Publish_loop h2 symbol upd now (map snd post) = Inr h3"
      and ev3: "evolves symbol (fst ` set post) (snd ` set post) h2 h3"
    by blast
  \<comment> \<open>the whole call\<close>
  have "Publish h symbol upd now
          = Publish_loop ?h0 symbol upd now (map snd pre @ a # map snd post)"
    using top sp by (simp add: Publish_def)
  also have "\<dots> = Inr h3"
    using l1 b2 l3 by (simp add: Publish_loop_append)
  finally have pub: "Publish h symbol upd now = Inr h3" .
  note ev = evolves_trans [OF evolves_trans [OF evolves_trans [OF ev0 ev1] ev2] ev3]
  have wf3: "topic_wf h3 symbol"
    unfolding topic_wf_def
  proof (intro conjI allI impI)
    show "obj_ok h3" using ev ok by (rule evolves_obj_ok)
    show "keys_distinct h3 symbol"
      using ev wf unfolding topic_wf_def by (blast intro: evolves_keys)
    fix k b assume "reg h3 symbol k = Some b"
    with ev have "reg h symbol k = Some b" by (rule evolves_reg_removed)
    with wf obtain sb where "objects h b = Some sb" "ID sb = k"
      unfolding topic_wf_def by blast
    with evolves_ID [OF ev, of b sb] show "\<exists>sb. objects h3 b = Some sb \<and> ID sb = k"
      by auto
  qed
  have obj3: "objects h3 a = Some (deliver_sub (slowThreshold h) upd now s)"
    using evolves_objects [OF ev3 apost] obj2 by simp
  have rg3: "reg h3 symbol (ID s) = (if evicts (slowThreshold h) s then None else Some a)"
    using evolves_reg [OF ev3 kpost] rg2 by simp
  have dm3: "droppedMessages h + (if drops s then 1 else 0) \<le> droppedMessages h3"
    using evolves_counters [OF ev0] evolves_counters [OF ev1] evolves_counters [OF ev3] dm2
    by linarith
  have as3: "activeSubscribers h3
               \<le> activeSubscribers h - (if evicts (slowThreshold h) s then 1 else 0)"
    using evolves_counters [OF ev0] evolves_counters [OF ev1] evolves_counters [OF ev3] as2
    by linarith
  from pub wf3 evolves_config [OF ev] obj3 rg3 dm3 as3 show ?thesis by blast
qed


lemma deliver_sub_enqueue:
  assumes "\<not> closed s" "int (length (chan_buf (SendChan s))) < chan_cap (SendChan s)"
  shows "chan_buf (SendChan (deliver_sub T upd now s)) = chan_buf (SendChan s) @ [upd]"
    and "chan_cap (SendChan (deliver_sub T upd now s)) = chan_cap (SendChan s)"
    and "chan_closed (SendChan (deliver_sub T upd now s)) = chan_closed (SendChan s)"
    and "Dropped (deliver_sub T upd now s) = Dropped s"
    and "\<not> closed (deliver_sub T upd now s)"
    and "\<not> drops s" and "\<not> evicts T s"
  using assms by (simp_all add: deliver_sub_def drops_def evicts_def)

lemma deliver_sub_drop:
  assumes "\<not> closed s" "\<not> int (length (chan_buf (SendChan s))) < chan_cap (SendChan s)"
    and "\<not> Dropped s + 1 > T"
  shows "chan_buf (SendChan (deliver_sub T upd now s)) = chan_buf (SendChan s)"
    and "chan_cap (SendChan (deliver_sub T upd now s)) = chan_cap (SendChan s)"
    and "chan_closed (SendChan (deliver_sub T upd now s)) = chan_closed (SendChan s)"
    and "Dropped (deliver_sub T upd now s) = Dropped s + 1"
    and "\<not> closed (deliver_sub T upd now s)"
    and "drops s" and "\<not> evicts T s"
  using assms by (simp_all add: deliver_sub_def drops_def evicts_def)

lemma deliver_sub_evict:
  assumes "\<not> closed s" "\<not> int (length (chan_buf (SendChan s))) < chan_cap (SendChan s)"
    and "Dropped s + 1 > T"
  shows "chan_buf (SendChan (deliver_sub T upd now s)) = chan_buf (SendChan s)"
    and "chan_cap (SendChan (deliver_sub T upd now s)) = chan_cap (SendChan s)"
    and "chan_closed (SendChan (deliver_sub T upd now s))"
    and "Dropped (deliver_sub T upd now s) = Dropped s + 1"
    and "closed (deliver_sub T upd now s)"
    and "drops s" and "evicts T s"
  using assms by (simp_all add: deliver_sub_def drops_def evicts_def)

lemma Publish_all_snoc:
  "Publish_all h symbol (us @ [u])
     = ebind (Publish_all h symbol us) (\<lambda>h'. Publish h' symbol (fst u) (snd u))"
proof (induction us arbitrary: h)
  case Nil
  show ?case by (cases "Publish h symbol (fst u) (snd u)") simp_all
next
  case (Cons x xs)
  show ?case
  proof (cases "Publish h symbol (fst x) (snd x)")
    case (Inl e)
    then show ?thesis by simp
  next
    case (Inr h1)
    then show ?thesis using Cons.IH [of h1] by simp
  qed
qed

text \<open>
  C2. Let the subscriber at address \<open>a\<close> be registered under its \<open>ID\<close> in the topic of
  \<open>symbol\<close>, in a well-formed topic, with an empty open queue of capacity
  \<open>bufferSize\<close>, no drops and the flag clear, and let nothing read the queue. Then each
  of \<open>bufferSize + slowThreshold + 1\<close> successive calls of \<open>Publish\<close> on \<open>symbol\<close>
  returns, and after \<open>k\<close> of them the queue holds the first \<open>min k bufferSize\<close>
  updates, \<open>Dropped\<close> is \<open>k - bufferSize\<close> (0 while \<open>k \<le> bufferSize\<close>), and the counter
  of the hub has grown by at least as much: every call after the first \<open>bufferSize\<close>
  adds at least one to it. Before the last call the subscriber is still
  registered and open, and after the last call, where \<open>Dropped\<close> is
  \<open>slowThreshold + 1\<close>, it is removed from the topic, its flag is set, its queue is
  closed and the counter of active subscribers has gone down. Other subscribers of the
  topic may be served and evicted by the same calls. Well-formedness of the topic holds
  of every state that a run of hub operations reaches from a new hub
  (\<open>reachable_topic_wf\<close>).
\<close>

theorem C2_slow_consumer_eviction:
  fixes h :: "'u Hub" and us :: "('u \<times> time) list"
  assumes wf: "topic_wf h symbol"
    and rg: "reg h symbol (ID s) = Some a"
    and obj: "objects h a = Some s"
    and chan: "SendChan s = \<lparr>chan_buf = [], chan_cap = bufferSize h, chan_closed = False\<rparr>"
    and fresh: "Dropped s = 0" "\<not> closed s"
    and B: "0 \<le> bufferSize h" and T: "0 \<le> slowThreshold h"
    and len: "int (length us) = bufferSize h + slowThreshold h + 1"
  shows "\<forall>k \<le> length us. \<exists>hk sk.
           Publish_all h symbol (take k us) = Inr hk \<and> objects hk a = Some sk
         \<and> chan_buf (SendChan sk) = map fst (take (min k (nat (bufferSize h))) us)
         \<and> Dropped sk = int (k - nat (bufferSize h))
         \<and> droppedMessages h + int (k - nat (bufferSize h)) \<le> droppedMessages hk
         \<and> (k < length us \<longrightarrow>
               reg hk symbol (ID s) = Some a \<and> \<not> closed sk \<and> \<not> chan_closed (SendChan sk)
             \<and> (\<exists>hk'. Publish hk symbol (fst (us ! k)) (snd (us ! k)) = Inr hk'
                    \<and> (nat (bufferSize h) \<le> k \<longrightarrow>
                           droppedMessages hk + 1 \<le> droppedMessages hk')))
         \<and> (k = length us \<longrightarrow>
               reg hk symbol (ID s) = None \<and> closed sk \<and> chan_closed (SendChan sk)
             \<and> Dropped sk = slowThreshold h + 1
             \<and> activeSubscribers hk \<le> activeSubscribers h - 1)"
proof -
  define Bn where "Bn = nat (bufferSize h)"
  define N where "N = length us"
  have Bn: "int Bn = bufferSize h" using B by (simp add: Bn_def)
  have N: "int N = int Bn + slowThreshold h + 1" using len Bn by (simp add: N_def)
  define Q where "Q k hk sk \<longleftrightarrow>
      objects hk a = Some sk \<and> ID sk = ID s
    \<and> bufferSize hk = bufferSize h \<and> slowThreshold hk = slowThreshold h
    \<and> chan_cap (SendChan sk) = bufferSize h
    \<and> chan_buf (SendChan sk) = map fst (take (min k Bn) us)
    \<and> Dropped sk = int (k - Bn)
    \<and> droppedMessages h + int (k - Bn) \<le> droppedMessages hk
    \<and> activeSubscribers hk \<le> activeSubscribers h
    \<and> (k < N \<longrightarrow> topic_wf hk symbol \<and> reg hk symbol (ID s) = Some a
                  \<and> \<not> closed sk \<and> \<not> chan_closed (SendChan sk))
    \<and> (k = N \<longrightarrow> reg hk symbol (ID s) = None \<and> closed sk \<and> chan_closed (SendChan sk)
                  \<and> activeSubscribers hk \<le> activeSubscribers h - 1)" for k hk sk
  have run: "k \<le> N \<Longrightarrow> \<exists>hk sk. Publish_all h symbol (take k us) = Inr hk \<and> Q k hk sk" for k
  proof (induction k)
    case 0
    have "0 < N" using N T by linarith
    then have "Q 0 h s"
      unfolding Q_def using wf rg obj chan fresh by simp
    then show ?case by auto
  next
    case (Suc k)
    then have kN: "k < N" by simp
    with Suc.IH obtain hk sk
      where pk: "Publish_all h symbol (take k us) = Inr hk" and q: "Q k hk sk" by auto
    from q kN have objk: "objects hk a = Some sk" and idk: "ID sk = ID s"
      and thk: "slowThreshold hk = slowThreshold h" and bsk: "bufferSize hk = bufferSize h"
      and capk: "chan_cap (SendChan sk) = bufferSize h"
      and bufk: "chan_buf (SendChan sk) = map fst (take (min k Bn) us)"
      and drk: "Dropped sk = int (k - Bn)"
      and dmk: "droppedMessages h + int (k - Bn) \<le> droppedMessages hk"
      and ask: "activeSubscribers hk \<le> activeSubscribers h"
      and wfk: "topic_wf hk symbol" and rgk: "reg hk symbol (ID sk) = Some a"
      and opk: "\<not> closed sk" "\<not> chan_closed (SendChan sk)"
      unfolding Q_def by simp_all
    let ?u = "us ! k"
    let ?s' = "deliver_sub (slowThreshold h) (fst ?u) (snd ?u) sk"
    from Publish_tracked [OF wfk rgk objk, of "fst ?u" "snd ?u"] thk bsk idk obtain h'
      where p': "Publish hk symbol (fst ?u) (snd ?u) = Inr h'"
        and wf': "topic_wf h' symbol"
        and cfg': "bufferSize h' = bufferSize h" "slowThreshold h' = slowThreshold h"
        and obj': "objects h' a = Some ?s'"
        and rg': "reg h' symbol (ID s) = (if evicts (slowThreshold h) sk then None else Some a)"
        and dm': "droppedMessages hk + (if drops sk then 1 else 0) \<le> droppedMessages h'"
        and as': "activeSubscribers h'
                   \<le> activeSubscribers hk - (if evicts (slowThreshold h) sk then 1 else 0)"
      by auto
    have kl: "k < length us" using kN by (simp add: N_def)
    have tk: "take (Suc k) us = take k us @ [?u]" using kl by (rule take_Suc_conv_app_nth)
    have pub: "Publish_all h symbol (take (Suc k) us) = Inr h'"
      unfolding tk Publish_all_snoc using pk p' by simp
    have lenbuf: "length (chan_buf (SendChan sk)) = min k Bn"
      unfolding bufk using kl by simp
    have "Q (Suc k) h' ?s'"
    proof (cases "k < Bn")
      case True
      then have lt: "int (length (chan_buf (SendChan sk))) < chan_cap (SendChan sk)"
        unfolding lenbuf capk using Bn by simp
      note f = deliver_sub_enqueue [OF opk(1) lt]
      have m: "min k Bn = k" "min (Suc k) Bn = Suc k" "k - Bn = 0" "Suc k - Bn = 0"
        using True by simp_all
      have sN: "Suc k < N" using True N T by linarith
      have "chan_buf (SendChan ?s') = map fst (take (Suc k) us)"
        unfolding f(1) bufk m tk by simp
      then show ?thesis
        unfolding Q_def m using f obj' idk cfg' capk drk dm' dmk as' ask wf' rg' opk sN True
        by simp
    next
      case False
      then have full: "\<not> int (length (chan_buf (SendChan sk))) < chan_cap (SendChan sk)"
        unfolding lenbuf capk using Bn by simp
      have m: "min k Bn = Bn" "min (Suc k) Bn = Bn" "int (Suc k - Bn) = int (k - Bn) + 1"
        using False by simp_all
      show ?thesis
      proof (cases "Suc k = N")
        case True
        then have "int (k - Bn) + 1 = slowThreshold h + 1" using N False by simp
        then have gt: "Dropped sk + 1 > slowThreshold h" unfolding drk by simp
        note f = deliver_sub_evict [OF opk(1) full gt]
        show ?thesis
          unfolding Q_def m using f obj' idk cfg' capk bufk drk dm' dmk as' ask rg' True False
          by simp
      next
        case ne: False
        with Suc.prems have sN: "Suc k < N" by simp
        then have "int (k - Bn) + 1 \<le> slowThreshold h" using N False by simp
        then have le: "\<not> Dropped sk + 1 > slowThreshold h" unfolding drk by simp
        note f = deliver_sub_drop [OF opk(1) full le]
        show ?thesis
          unfolding Q_def m using f obj' idk cfg' capk bufk drk dm' dmk as' ask wf' rg' opk sN False
          by simp
      qed
    qed
    with pub show ?case by blast
  qed
  show ?thesis
  proof (intro allI impI)
    fix k assume "k \<le> length us"
    then have "k \<le> N" by (simp add: N_def)
    from run [OF this] obtain hk sk
      where p: "Publish_all h symbol (take k us) = Inr hk" and q: "Q k hk sk" by blast
    have step: "\<exists>hk'. Publish hk symbol (fst (us ! k)) (snd (us ! k)) = Inr hk'
                    \<and> (nat (bufferSize h) \<le> k \<longrightarrow>
                           droppedMessages hk + 1 \<le> droppedMessages hk')"
      if "k < length us"
    proof -
      from that have kN: "k < N" by (simp add: N_def)
      with q have objk: "objects hk a = Some sk" and idk: "ID sk = ID s"
        and capk: "chan_cap (SendChan sk) = bufferSize h"
        and bufk: "chan_buf (SendChan sk) = map fst (take (min k Bn) us)"
        and wfk: "topic_wf hk symbol" and rgk: "reg hk symbol (ID sk) = Some a"
        and opk: "\<not> closed sk"
        unfolding Q_def by simp_all
      from Publish_tracked [OF wfk rgk objk, of "fst (us ! k)" "snd (us ! k)"] obtain hk'
        where p': "Publish hk symbol (fst (us ! k)) (snd (us ! k)) = Inr hk'"
          and dm': "droppedMessages hk + (if drops sk then 1 else 0) \<le> droppedMessages hk'"
        by auto
      have "drops sk" if "Bn \<le> k"
      proof -
        have "length (chan_buf (SendChan sk)) = Bn"
          unfolding bufk using that \<open>k < length us\<close> by simp
        with capk Bn opk show ?thesis by (simp add: drops_def)
      qed
      with dm' have "Bn \<le> k \<longrightarrow> droppedMessages hk + 1 \<le> droppedMessages hk'" by auto
      with p' show ?thesis unfolding Bn_def by blast
    qed
    have last: "Dropped sk = slowThreshold h + 1" if "k = length us"
    proof -
      from q have d: "Dropped sk = int (k - Bn)" unfolding Q_def by simp
      have "Bn \<le> length us" using N T unfolding N_def by linarith
      then have "int (length us - Bn) = int (length us) - int Bn" by (simp add: of_nat_diff)
      with d that N show ?thesis unfolding N_def by simp
    qed
    from p q last step show "\<exists>hk sk.
           Publish_all h symbol (take k us) = Inr hk \<and> objects hk a = Some sk
         \<and> chan_buf (SendChan sk) = map fst (take (min k (nat (bufferSize h))) us)
         \<and> Dropped sk = int (k - nat (bufferSize h))
         \<and> droppedMessages h + int (k - nat (bufferSize h)) \<le> droppedMessages hk
         \<and> (k < length us \<longrightarrow>
               reg hk symbol (ID s) = Some a \<and> \<not> closed sk \<and> \<not> chan_closed (SendChan sk)
             \<and> (\<exists>hk'. Publish hk symbol (fst (us ! k)) (snd (us ! k)) = Inr hk'
                    \<and> (nat (bufferSize h) \<le> k \<longrightarrow>
                           droppedMessages hk + 1 \<le> droppedMessages hk')))
         \<and> (k = length us \<longrightarrow>
               reg hk symbol (ID s) = None \<and> closed sk \<and> chan_closed (SendChan sk)
             \<and> Dropped sk = slowThreshold h + 1
             \<and> activeSubscribers hk \<le> activeSubscribers h - 1)"
      unfolding Q_def Bn_def N_def by (intro exI [of _ hk] exI [of _ sk]) simp
  qed
qed


lemma example_hub_run:
  "run (NewHub 2 1 60)
     [OpCreateSubscriber 0 ''s1'' 1 1, OpCreateSubscriber 0 ''s2'' 1 1,
      OpSubscribe ''BTC'' 0, OpSubscribe ''BTC'' 1] = Inr example_hub"
  by (simp add: hub_eval example_hub_def example_sub_def fun_upd_twist)

lemma example_hub_wf: "topic_wf example_hub ''BTC''"
  unfolding topic_wf_def
proof (intro conjI allI impI)
  show "obj_ok example_hub"
    by (auto simp: obj_ok_def example_hub_def example_sub_def split: if_splits)
  show "keys_distinct example_hub ''BTC''"
    by (simp add: keys_distinct_def example_hub_def)
  show "\<exists>sb. objects example_hub b = Some sb \<and> ID sb = k"
    if "reg example_hub ''BTC'' k = Some b" for k b
    using that by (auto simp: reg_def example_hub_def example_sub_def split: if_splits)
qed

theorem C2_witness:
  "\<exists>hk sk. Publish_all example_hub ''BTC'' [(10, 1), (20, 2), (30, 3), (40, 4)] = Inr hk
         \<and> objects hk 0 = Some sk
         \<and> chan_buf (SendChan sk) = [10, 20]
         \<and> Dropped sk = 2
         \<and> reg hk ''BTC'' ''s1'' = None \<and> closed sk \<and> chan_closed (SendChan sk)
         \<and> activeSubscribers hk \<le> 1"
proof -
  let ?us = "[(10, 1), (20, 2), (30, 3), (40, 4)] :: (nat \<times> time) list"
  have rg: "reg example_hub ''BTC'' (ID (example_sub ''s1'')) = Some 0"
    by (simp add: reg_def example_hub_def example_sub_def)
  have obj: "objects example_hub 0 = Some (example_sub ''s1'')"
    by (simp add: example_hub_def)
  have chan: "SendChan (example_sub ''s1'')
               = \<lparr>chan_buf = [], chan_cap = bufferSize example_hub, chan_closed = False\<rparr>"
    by (simp add: example_hub_def example_sub_def)
  have fresh: "Dropped (example_sub ''s1'') = 0" "\<not> closed (example_sub ''s1'')"
    by (simp_all add: example_sub_def)
  have cfg: "0 \<le> bufferSize example_hub" "0 \<le> slowThreshold example_hub"
    "int (length ?us) = bufferSize example_hub + slowThreshold example_hub + 1"
    by (simp_all add: example_hub_def)
  from C2_slow_consumer_eviction [OF example_hub_wf rg obj chan fresh cfg, rule_format, of 4]
  show ?thesis
    by (simp add: example_hub_def example_sub_def) blast
qed

subsection \<open>Reachable states of the hub are well formed\<close>

lemma shrinks_refl: "shrinks h h"
  unfolding shrinks_def by blast

lemma shrinks_alloc: "shrinks h h' \<Longrightarrow> allocated h' = allocated h"
  unfolding shrinks_def by (elim conjE)

lemma shrinks_None: "shrinks h h' \<Longrightarrow> objects h c = None \<Longrightarrow> objects h' c = None"
  unfolding shrinks_def by (elim conjE allE [of _ c] impE)

lemma shrinks_Some:
  "shrinks h h' \<Longrightarrow> objects h c = Some sc \<Longrightarrow>
   \<exists>sc'. objects h' c = Some sc' \<and> ID sc' = ID sc \<and>
         ((chan_closed (SendChan sc) \<longrightarrow> closed sc) \<longrightarrow>
          (chan_closed (SendChan sc') \<longrightarrow> closed sc'))"
  unfolding shrinks_def by (elim conjE) (erule allE [of _ c], erule allE [of _ sc], erule impE)

lemma shrinks_reg: "shrinks h h' \<Longrightarrow> reg h' symbol k = Some b \<Longrightarrow> reg h symbol k = Some b"
  unfolding shrinks_def by (elim conjE) blast

lemma shrinks_keys: "shrinks h h' \<Longrightarrow> keys_distinct h symbol \<Longrightarrow> keys_distinct h' symbol"
  unfolding shrinks_def by (elim conjE) blast

lemma shrinks_trans:
  assumes 1: "shrinks h1 h2" and 2: "shrinks h2 h3"
  shows "shrinks h1 h3"
  unfolding shrinks_def
proof (intro conjI allI impI)
  show "allocated h3 = allocated h1" using shrinks_alloc [OF 1] shrinks_alloc [OF 2] by simp
  show "objects h3 c = None" if "objects h1 c = None" for c
    using that by (intro shrinks_None [OF 2] shrinks_None [OF 1])
  show "\<exists>sc'. objects h3 c = Some sc' \<and> ID sc' = ID sc \<and>
               ((chan_closed (SendChan sc) \<longrightarrow> closed sc) \<longrightarrow>
                (chan_closed (SendChan sc') \<longrightarrow> closed sc'))"
    if "objects h1 c = Some sc" for c sc
  proof -
    from shrinks_Some [OF 1 that] obtain s2 where a: "objects h2 c = Some s2" "ID s2 = ID sc"
      "(chan_closed (SendChan sc) \<longrightarrow> closed sc) \<longrightarrow> (chan_closed (SendChan s2) \<longrightarrow> closed s2)"
      by blast
    from shrinks_Some [OF 2 a(1)] obtain s3 where b: "objects h3 c = Some s3" "ID s3 = ID s2"
      "(chan_closed (SendChan s2) \<longrightarrow> closed s2) \<longrightarrow> (chan_closed (SendChan s3) \<longrightarrow> closed s3)"
      by blast
    from a b show ?thesis by simp
  qed
  show "reg h1 symbol k = Some b" if "reg h3 symbol k = Some b" for symbol k b
    using that by (intro shrinks_reg [OF 1] shrinks_reg [OF 2])
  show "keys_distinct h3 symbol" if "keys_distinct h1 symbol" for symbol
    using that by (intro shrinks_keys [OF 2] shrinks_keys [OF 1])
qed

lemma hub_invD:
  assumes "hub_inv h"
  shows "allocated h \<le> b \<Longrightarrow> objects h b = None" and "topic_wf h symbol" and "obj_ok h"
  using assms unfolding hub_inv_def topic_wf_def by blast+

lemma topic_wf_reg:
  "topic_wf h symbol \<Longrightarrow> reg h symbol k = Some b \<Longrightarrow> \<exists>sb. objects h b = Some sb \<and> ID sb = k"
  unfolding topic_wf_def by blast

lemma topic_wf_keys: "topic_wf h symbol \<Longrightarrow> keys_distinct h symbol"
  unfolding topic_wf_def by blast

lemma hub_inv_shrinks:
  assumes inv: "hub_inv h" and sh: "shrinks h h'"
  shows "hub_inv h'"
proof -
  note ok = hub_invD(3) [OF inv]
  have 1: "objects h' b = None" if "allocated h' \<le> b" for b
    using that hub_invD(1) [OF inv, of b] shrinks_alloc [OF sh] shrinks_None [OF sh, of b] by simp
  have 2: "obj_ok h'"
    unfolding obj_ok_def
  proof (intro allI impI)
    fix c sc' assume c: "objects h' c = Some sc'" and cl: "chan_closed (SendChan sc')"
    show "closed sc'"
    proof (cases "objects h c")
      case None
      with shrinks_None [OF sh] c show ?thesis by simp
    next
      case (Some sc)
      from shrinks_Some [OF sh Some] obtain s2 where "objects h' c = Some s2"
        "(chan_closed (SendChan sc) \<longrightarrow> closed sc) \<longrightarrow> (chan_closed (SendChan s2) \<longrightarrow> closed s2)"
        by blast
      with c cl obj_okD [OF ok Some] show ?thesis by simp
    qed
  qed
  have 3: "topic_wf h' symbol" for symbol
    unfolding topic_wf_def
  proof (intro conjI allI impI)
    show "obj_ok h'" by (rule 2)
    show "keys_distinct h' symbol"
      by (rule shrinks_keys [OF sh topic_wf_keys [OF hub_invD(2) [OF inv]]])
    fix k b assume "reg h' symbol k = Some b"
    with sh have "reg h symbol k = Some b" by (rule shrinks_reg)
    from topic_wf_reg [OF hub_invD(2) [OF inv] this] obtain sb
      where sb: "objects h b = Some sb" "ID sb = k" by blast
    from shrinks_Some [OF sh sb(1)] sb(2) show "\<exists>sb. objects h' b = Some sb \<and> ID sb = k"
      by auto
  qed
  from 1 3 show ?thesis unfolding hub_inv_def by blast
qed


lemma reg_same_topics: "topics h' = topics h \<Longrightarrow> reg h' symbol k = reg h symbol k"
  by (simp add: reg_def)

lemma keys_same_topics: "topics h' = topics h \<Longrightarrow> keys_distinct h' symbol = keys_distinct h symbol"
  by (simp add: keys_distinct_def)

lemma reg_delete:
  assumes "map_of (topics h) symbol = Some t"
    and "topics h' = AList.update symbol (t\<lparr>subscribers := AList.delete k0 (subscribers t)\<rparr>) (topics h)"
  shows "reg h' symbol2 k = (if symbol2 = symbol \<and> k = k0 then None else reg h symbol2 k)"
  using assms by (simp add: reg_def update_conv' delete_conv')

lemma keys_delete:
  assumes "map_of (topics h) symbol = Some t"
    and "topics h' = AList.update symbol (t\<lparr>subscribers := AList.delete k0 (subscribers t)\<rparr>) (topics h)"
    and "keys_distinct h symbol2"
  shows "keys_distinct h' symbol2"
proof (cases "symbol2 = symbol")
  case True
  with assms(1,3) have "distinct (map fst (subscribers t))" unfolding keys_distinct_def by blast
  then have "distinct (map fst (AList.delete k0 (subscribers t)))" by (rule distinct_delete)
  with True assms(2) show ?thesis by (simp add: keys_distinct_def update_conv')
next
  case False
  with assms(2,3) show ?thesis by (simp add: keys_distinct_def update_conv')
qed

lemma shrinks_step:
  assumes al: "allocated h' = allocated h"
    and ob: "objects h' = (objects h)(b \<mapsto> sb')" and obj: "objects h b = Some sb"
    and idb: "ID sb' = ID sb"
    and okb: "(chan_closed (SendChan sb) \<longrightarrow> closed sb) \<longrightarrow> (chan_closed (SendChan sb') \<longrightarrow> closed sb')"
    and tp: "topics h' = topics h \<or>
             (\<exists>t k0. map_of (topics h) symbol = Some t \<and>
                topics h' = AList.update symbol
                              (t\<lparr>subscribers := AList.delete k0 (subscribers t)\<rparr>) (topics h))"
  shows "shrinks h h'"
  unfolding shrinks_def
proof (intro conjI allI impI)
  show "allocated h' = allocated h" by (rule al)
  show "objects h' c = None" if "objects h c = None" for c
    using that ob obj by (cases "c = b") simp_all
  show "\<exists>sc'. objects h' c = Some sc' \<and> ID sc' = ID sc \<and>
               ((chan_closed (SendChan sc) \<longrightarrow> closed sc) \<longrightarrow>
                (chan_closed (SendChan sc') \<longrightarrow> closed sc'))"
    if "objects h c = Some sc" for c sc
    using that ob obj idb okb by (cases "c = b") simp_all
  show "reg h symbol2 k = Some c" if "reg h' symbol2 k = Some c" for symbol2 k c
    using tp
  proof (elim disjE exE conjE)
    assume "topics h' = topics h"
    from reg_same_topics [OF this] that show ?thesis by simp
  next
    fix t k0 assume "map_of (topics h) symbol = Some t"
      "topics h' = AList.update symbol (t\<lparr>subscribers := AList.delete k0 (subscribers t)\<rparr>) (topics h)"
    from reg_delete [OF this, of symbol2 k] that show ?thesis by (cases "symbol2 = symbol \<and> k = k0") simp_all
  qed
  show "keys_distinct h' symbol2" if "keys_distinct h symbol2" for symbol2
    using tp
  proof (elim disjE exE conjE)
    assume "topics h' = topics h"
    from keys_same_topics [OF this] that show ?thesis by simp
  next
    fix t k0 assume "map_of (topics h) symbol = Some t"
      "topics h' = AList.update symbol (t\<lparr>subscribers := AList.delete k0 (subscribers t)\<rparr>) (topics h)"
    from keys_delete [OF this that] show ?thesis .
  qed
qed

lemma Unsubscribe_shrinks:
  assumes "Unsubscribe h symbol subID = Inr h'"
  shows "shrinks h h'"
proof (cases "map_of (topics h) symbol")
  case None
  with assms show ?thesis by (simp add: Unsubscribe_def shrinks_refl)
next
  case top: (Some t)
  show ?thesis
  proof (cases "map_of (subscribers t) subID")
    case None
    with assms top show ?thesis by (simp add: Unsubscribe_def shrinks_refl)
  next
    case sub: (Some b)
    show ?thesis
    proof (cases "objects h b")
      case None
      with assms top sub show ?thesis by (simp add: Unsubscribe_def)
    next
      case obj: (Some sb)
      show ?thesis
      proof (cases "chan_closed (SendChan sb)")
        case True
        with assms top sub obj show ?thesis by (simp add: Unsubscribe_def close_chan_def)
      next
        case False
        let ?sb' = "sb\<lparr>closed := True, SendChan := (SendChan sb)\<lparr>chan_closed := True\<rparr>\<rparr>"
        from False assms top sub obj
        have h': "h' = h\<lparr>objects := (objects h)(b \<mapsto> ?sb'),
                         topics := AList.update symbol
                                     (t\<lparr>subscribers := AList.delete subID (subscribers t)\<rparr>)
                                     (topics h),
                         activeSubscribers := activeSubscribers h - 1\<rparr>"
          by (simp add: Unsubscribe_def close_chan_def)
        show ?thesis
        proof (rule shrinks_step [where b = b and sb = sb and sb' = ?sb' and symbol = symbol])
          show "topics h' = topics h \<or>
             (\<exists>t k0. map_of (topics h) symbol = Some t \<and>
                topics h' = AList.update symbol
                              (t\<lparr>subscribers := AList.delete k0 (subscribers t)\<rparr>) (topics h))"
            using top h' by auto
        qed (use h' obj in simp_all)
      qed
    qed
  qed
qed

lemma Publish_body_shrinks:
  assumes "Publish_body h symbol upd now b = Inr h'"
  shows "shrinks h h'"
proof (cases "objects h b")
  case None
  with assms show ?thesis by (simp add: Publish_body_def)
next
  case obj: (Some sb)
  show ?thesis
  proof (cases "closed sb")
    case True
    with assms obj show ?thesis by (simp add: Publish_body_def shrinks_refl)
  next
    case op: False
    show ?thesis
    proof (cases "chan_closed (SendChan sb)")
      case True
      with assms obj op show ?thesis by (simp add: Publish_body_def try_send_def)
    next
      case nc: False
      show ?thesis
      proof (cases "int (length (chan_buf (SendChan sb))) < chan_cap (SendChan sb)")
        case True
        let ?sb' = "sb\<lparr>SendChan := (SendChan sb)\<lparr>chan_buf := chan_buf (SendChan sb) @ [upd]\<rparr>,
                       LastSend := now\<rparr>"
        from True assms obj op nc
        have h': "h' = h\<lparr>objects := (objects h)(b \<mapsto> ?sb')\<rparr>"
          by (simp add: Publish_body_def try_send_def)
        show ?thesis
          by (rule shrinks_step [where b = b and sb = sb and sb' = ?sb' and symbol = symbol])
             (use h' obj in simp_all)
      next
        case full: False
        let ?sb' = "sb\<lparr>Dropped := Dropped sb + 1\<rparr>"
        let ?h1 = "h\<lparr>objects := (objects h)(b \<mapsto> ?sb'),
                      droppedMessages := droppedMessages h + 1\<rparr>"
        have s1: "shrinks h ?h1"
          by (rule shrinks_step [where b = b and sb = sb and sb' = ?sb' and symbol = symbol])
             (use obj in simp_all)
        show ?thesis
        proof (cases "Dropped sb + 1 > slowThreshold h")
          case True
          with full assms obj op nc have "Unsubscribe ?h1 symbol (ID sb) = Inr h'"
            by (simp add: Publish_body_def try_send_def Let_def handleSlowConsumer_def)
          from shrinks_trans [OF s1 Unsubscribe_shrinks [OF this]] show ?thesis .
        next
          case False
          with full assms obj op nc have "h' = ?h1"
            by (simp add: Publish_body_def try_send_def Let_def)
          with s1 show ?thesis by simp
        qed
      qed
    qed
  qed
qed

lemma Publish_loop_shrinks:
  "Publish_loop h symbol upd now subs = Inr h' \<Longrightarrow> shrinks h h'"
proof (induction subs arbitrary: h)
  case Nil
  then show ?case by (simp add: shrinks_refl)
next
  case (Cons b subs)
  show ?case
  proof (cases "Publish_body h symbol upd now b")
    case (Inl e)
    with Cons.prems show ?thesis by simp
  next
    case (Inr h1)
    with Cons.prems have "Publish_loop h1 symbol upd now subs = Inr h'" by simp
    from shrinks_trans [OF Publish_body_shrinks [OF Inr] Cons.IH [OF this]] show ?thesis .
  qed
qed

lemma touch_shrinks:
  assumes "map_of (topics h) symbol = Some t"
  shows "shrinks h (h\<lparr>topics := AList.update symbol (t\<lparr>lastUpdate := now\<rparr>) (topics h)\<rparr>)"
  unfolding shrinks_def
proof (intro conjI allI impI)
  let ?h' = "h\<lparr>topics := AList.update symbol (t\<lparr>lastUpdate := now\<rparr>) (topics h)\<rparr>"
  have r: "reg ?h' symbol2 k = reg h symbol2 k" for symbol2 k
    using assms by (simp add: reg_def update_conv')
  show "reg h symbol2 k = Some b" if "reg ?h' symbol2 k = Some b" for symbol2 k b
    using that r by simp
  show "keys_distinct ?h' symbol2" if "keys_distinct h symbol2" for symbol2
    using that assms by (simp add: keys_distinct_def update_conv')
qed simp_all

lemma Publish_shrinks:
  assumes "Publish h symbol upd now = Inr h'"
  shows "shrinks h h'"
proof (cases "map_of (topics h) symbol")
  case None
  with assms show ?thesis by (simp add: Publish_def shrinks_refl)
next
  case (Some t)
  with assms have "Publish_loop (h\<lparr>topics := AList.update symbol (t\<lparr>lastUpdate := now\<rparr>) (topics h)\<rparr>)
                     symbol upd now (map snd (subscribers t)) = Inr h'"
    by (simp add: Publish_def)
  from shrinks_trans [OF touch_shrinks [OF Some] Publish_loop_shrinks [OF this]] show ?thesis .
qed


lemma CleanupZombies_body_shrinks:
  assumes "CleanupZombies_body h symbol now entry = Inr h'"
  shows "shrinks h h'"
proof -
  obtain subID b where e: "entry = (subID, b)" by (cases entry)
  show ?thesis
  proof (cases "objects h b")
    case None
    with assms e show ?thesis by (simp add: CleanupZombies_body_def)
  next
    case obj: (Some sb)
    show ?thesis
    proof (cases "now - LastSend sb > zombieTimeout h \<and> \<not> closed sb")
      case False
      with assms e obj have "h' = h" by (auto simp: CleanupZombies_body_def)
      then show ?thesis by (simp add: shrinks_refl)
    next
      case True
      show ?thesis
      proof (cases "chan_closed (SendChan sb)")
        case cl: True
        with assms e obj True show ?thesis by (simp add: CleanupZombies_body_def close_chan_def)
      next
        case nc: False
        let ?sb' = "sb\<lparr>closed := True, SendChan := (SendChan sb)\<lparr>chan_closed := True\<rparr>\<rparr>"
        let ?tp = "case map_of (topics h) symbol of
                     None \<Rightarrow> topics h
                   | Some topic \<Rightarrow>
                       AList.update symbol
                         (topic\<lparr>subscribers := AList.delete subID (subscribers topic)\<rparr>)
                         (topics h)"
        from True nc assms e obj
        have h': "h' = h\<lparr>objects := (objects h)(b \<mapsto> ?sb'),
                         topics := ?tp,
                         activeSubscribers := activeSubscribers h - 1\<rparr>"
          by (simp add: CleanupZombies_body_def close_chan_def)
        show ?thesis
        proof (rule shrinks_step [where b = b and sb = sb and sb' = ?sb' and symbol = symbol])
          show "topics h' = topics h \<or>
             (\<exists>t k0. map_of (topics h) symbol = Some t \<and>
                topics h' = AList.update symbol
                              (t\<lparr>subscribers := AList.delete k0 (subscribers t)\<rparr>) (topics h))"
            using h' by (cases "map_of (topics h) symbol") auto
        qed (use h' obj in simp_all)
      qed
    qed
  qed
qed

lemma CleanupZombies_subs_shrinks:
  "CleanupZombies_subs h symbol now entries = Inr h' \<Longrightarrow> shrinks h h'"
proof (induction entries arbitrary: h)
  case Nil
  then show ?case by (simp add: shrinks_refl)
next
  case (Cons e entries)
  show ?case
  proof (cases "CleanupZombies_body h symbol now e")
    case (Inl x)
    with Cons.prems show ?thesis by simp
  next
    case (Inr h1)
    with Cons.prems have "CleanupZombies_subs h1 symbol now entries = Inr h'" by simp
    from shrinks_trans [OF CleanupZombies_body_shrinks [OF Inr] Cons.IH [OF this]]
    show ?thesis .
  qed
qed

lemma CleanupZombies_topics_shrinks:
  "CleanupZombies_topics h now symbols = Inr h' \<Longrightarrow> shrinks h h'"
proof (induction symbols arbitrary: h)
  case Nil
  then show ?case by (simp add: shrinks_refl)
next
  case (Cons symbol symbols)
  let ?first = "case map_of (topics h) symbol of
                  None \<Rightarrow> Inr h
                | Some topic \<Rightarrow> CleanupZombies_subs h symbol now (subscribers topic)"
  show ?case
  proof (cases ?first)
    case (Inl x)
    with Cons.prems show ?thesis by simp
  next
    case (Inr h1)
    have s1: "shrinks h h1"
    proof (cases "map_of (topics h) symbol")
      case None
      with Inr show ?thesis by (simp add: shrinks_refl)
    next
      case (Some t)
      with Inr show ?thesis by (simp add: CleanupZombies_subs_shrinks)
    qed
    from Inr Cons.prems have "CleanupZombies_topics h1 now symbols = Inr h'" by simp
    from shrinks_trans [OF s1 Cons.IH [OF this]] show ?thesis .
  qed
qed

lemma hub_inv_NewHub: "hub_inv (NewHub bs st zt)"
  by (simp add: hub_inv_def topic_wf_def obj_ok_def keys_distinct_def reg_def NewHub_def)

lemma hub_inv_CreateSubscriber:
  assumes inv: "hub_inv h" and c: "CreateSubscriber h now sid tenantID apiKeyID = Inr (a, h')"
  shows "hub_inv h'"
proof -
  let ?s = "\<lparr>ID = sid, TenantID = tenantID, APIKeyID = apiKeyID,
            SendChan = \<lparr>chan_buf = [], chan_cap = bufferSize h, chan_closed = False\<rparr>,
            ConnectTime = now, LastSend = now, Dropped = 0, closed = False\<rparr>"
  from c have h': "h' = h\<lparr>objects := (objects h)(allocated h \<mapsto> ?s),
                          allocated := Suc (allocated h)\<rparr>"
    by (auto simp: CreateSubscriber_def make_chan_def split: if_splits)
  have free: "objects h (allocated h) = None" using hub_invD(1) [OF inv] by simp
  have 1: "objects h' b = None" if "allocated h' \<le> b" for b
    using that hub_invD(1) [OF inv, of b] h' by simp
  have 2: "obj_ok h'"
    unfolding obj_ok_def
  proof (intro allI impI)
    fix b sb assume b: "objects h' b = Some sb" and cl: "chan_closed (SendChan sb)"
    show "closed sb"
    proof (cases "b = allocated h")
      case True
      with b h' have "sb = ?s" by simp
      with cl show ?thesis by simp
    next
      case False
      with b h' have "objects h b = Some sb" by simp
      from obj_okD [OF hub_invD(3) [OF inv] this] cl show ?thesis by simp
    qed
  qed
  have tp: "topics h' = topics h" using h' by simp
  have 3: "topic_wf h' symbol" for symbol
    unfolding topic_wf_def
  proof (intro conjI allI impI)
    show "obj_ok h'" by (rule 2)
    show "keys_distinct h' symbol"
      using keys_same_topics [OF tp] topic_wf_keys [OF hub_invD(2) [OF inv]] by simp
    fix k b assume "reg h' symbol k = Some b"
    with reg_same_topics [OF tp] have "reg h symbol k = Some b" by simp
    from topic_wf_reg [OF hub_invD(2) [OF inv] this] obtain sb
      where sb: "objects h b = Some sb" "ID sb = k" by blast
    with free have "b \<noteq> allocated h" by auto
    with sb h' show "\<exists>sb. objects h' b = Some sb \<and> ID sb = k" by simp
  qed
  from 1 3 show ?thesis unfolding hub_inv_def by blast
qed

lemma hub_inv_Subscribe:
  assumes inv: "hub_inv h" and sub: "Subscribe h symbol a = Inr h'"
  shows "hub_inv h'"
proof -
  from sub obtain s where obj: "objects h a = Some s"
    by (cases "objects h a") (simp_all add: Subscribe_def Let_def)
  define topic where "topic = (case map_of (topics h) symbol of
                     Some t \<Rightarrow> t
                   | None \<Rightarrow> \<lparr>topic_symbol = symbol, subscribers = [], lastUpdate = 0\<rparr>)"
  from sub obj have h': "h' = h\<lparr>topics := AList.update symbol
                                (topic\<lparr>subscribers := AList.update (ID s) a (subscribers topic)\<rparr>)
                                (topics h),
                    activeSubscribers := activeSubscribers h + 1\<rparr>"
    by (simp add: Subscribe_def Let_def topic_def)
  have old: "map_of (subscribers topic) k = reg h symbol k" for k
    by (simp add: topic_def reg_def split: option.splits)
  have r: "reg h' symbol2 k
             = (if symbol2 = symbol then (if k = ID s then Some a else reg h symbol k)
                else reg h symbol2 k)" for symbol2 k
    using old [of k] by (simp add: h' reg_def update_conv')
  have dk: "distinct (map fst (subscribers topic))"
  proof (cases "map_of (topics h) symbol")
    case None
    then show ?thesis by (simp add: topic_def)
  next
    case (Some t)
    with topic_wf_keys [OF hub_invD(2) [OF inv], of symbol] show ?thesis
      by (simp add: topic_def keys_distinct_def)
  qed
  have 1: "objects h' b = None" if "allocated h' \<le> b" for b
    using that hub_invD(1) [OF inv, of b] h' by simp
  have 2: "obj_ok h'" using hub_invD(3) [OF inv] h' by (simp add: obj_ok_def)
  have 3: "topic_wf h' symbol2" for symbol2
    unfolding topic_wf_def
  proof (intro conjI allI impI)
    show "obj_ok h'" by (rule 2)
    show "keys_distinct h' symbol2"
    proof (cases "symbol2 = symbol")
      case True
      from dk have "distinct (map fst (AList.update (ID s) a (subscribers topic)))"
        by (rule distinct_update)
      with True show ?thesis by (simp add: h' keys_distinct_def update_conv')
    next
      case False
      with topic_wf_keys [OF hub_invD(2) [OF inv], of symbol2] show ?thesis
        by (simp add: h' keys_distinct_def update_conv')
    qed
    fix k b assume rb: "reg h' symbol2 k = Some b"
    show "\<exists>sb. objects h' b = Some sb \<and> ID sb = k"
    proof (cases "symbol2 = symbol \<and> k = ID s")
      case True
      with rb r [of symbol2 k] have "b = a" by simp
      with True obj h' show ?thesis by simp
    next
      case False
      with rb r [of symbol2 k] have "reg h symbol2 k = Some b" by (auto split: if_splits)
      from topic_wf_reg [OF hub_invD(2) [OF inv] this] h' show ?thesis by simp
    qed
  qed
  from 1 3 show ?thesis unfolding hub_inv_def by blast
qed

lemma hub_inv_run_op:
  assumes inv: "hub_inv h" and r: "run_op h op = Inr h'"
  shows "hub_inv h'"
proof (cases op)
  case (OpCreateSubscriber now sid tenantID apiKeyID)
  with r obtain a where "CreateSubscriber h now sid tenantID apiKeyID = Inr (a, h')"
    by (cases "CreateSubscriber h now sid tenantID apiKeyID") auto
  with inv show ?thesis by (rule hub_inv_CreateSubscriber)
next
  case (OpSubscribe symbol a)
  with r inv show ?thesis by (auto intro: hub_inv_Subscribe)
next
  case (OpUnsubscribe symbol subID)
  with r have "shrinks h h'" by (auto intro: Unsubscribe_shrinks)
  with inv show ?thesis by (rule hub_inv_shrinks)
next
  case (OpPublish symbol upd now)
  with r have "shrinks h h'" by (auto intro: Publish_shrinks)
  with inv show ?thesis by (rule hub_inv_shrinks)
next
  case (OpCleanupZombies now)
  with r have "shrinks h h'" by (auto simp: CleanupZombies_def intro: CleanupZombies_topics_shrinks)
  with inv show ?thesis by (rule hub_inv_shrinks)
qed

lemma hub_inv_run: "hub_inv h \<Longrightarrow> run h ops = Inr h' \<Longrightarrow> hub_inv h'"
proof (induction ops arbitrary: h)
  case Nil
  then show ?case by simp
next
  case (Cons op ops)
  show ?case
  proof (cases "run_op h op")
    case (Inl e)
    with Cons.prems show ?thesis by simp
  next
    case (Inr h1)
    with Cons.prems have "run h1 ops = Inr h'" by simp
    from Cons.IH [OF hub_inv_run_op [OF Cons.prems(1) Inr] this] show ?thesis .
  qed
qed

text \<open>
  Every state that a run of operations reaches from a new hub has all its topics well
  formed, so the first hypothesis of the back-pressure theorem holds of it.
\<close>

lemma reachable_topic_wf: "run (NewHub bs st zt) ops = Inr h \<Longrightarrow> topic_wf h symbol"
  by (rule hub_invD(2) [OF hub_inv_run [OF hub_inv_NewHub]])

end
